theory Spec2Isabelle
  imports Main "HOL-Library.Word"
begin

unbundle bit_operations_syntax

section \<open>Click events: the table, the repository, the sweeper and the consumer\<close>

text \<open>
  Times (Go's \<open>time.Time\<close>) are integers: nanoseconds since the epoch. A row of the
  \<open>click_events\<close> table is the struct \<open>model.ClickEvent\<close>; the column \<open>id\<close> is its
  primary key (\<open>gorm:"primaryKey"\<close>). The publisher fills a field \<open>Status\<close> and the
  repository updates the column \<open>status\<close>, so the struct is modelled with that field.
\<close>

record ClickEvent =
  ID :: string
  LinkCode :: string
  IP :: string
  UserAgent :: string
  Status :: string
  Timestamp :: int

text \<open>
  Modelled from the spec: the three status constants \<open>model.ClickStatusPending\<close>,
  \<open>model.ClickStatusSuccess\<close> and \<open>model.ClickStatusFailed\<close>, which the repository and
  the handlers use and whose declaration is not among the source files. The spec names
  the statuses PENDING, SUCCESS and FAILED; the code passes them as strings.
\<close>

definition ClickStatusPending :: string where
  "ClickStatusPending = ''PENDING''"

definition ClickStatusSuccess :: string where
  "ClickStatusSuccess = ''SUCCESS''"

definition ClickStatusFailed :: string where
  "ClickStatusFailed = ''FAILED''"

text \<open>
  What a call to the relational store can answer besides success: the row's primary key
  is taken (an \<open>INSERT\<close> of a duplicate key), no row matches (\<open>gorm.ErrRecordNotFound\<close>),
  or the store cannot be reached.
\<close>

datatype db_error = ErrDuplicatedKey | ErrRecordNotFound | ErrStoreUnreachable

text \<open>
  The table is the list of its rows. Every repository call takes a flag saying whether
  the store answers this call (\<open>up\<close>), and returns the error (if any) and the table.
\<close>

type_synonym click_table = "ClickEvent list"

definition has_id :: "click_table \<Rightarrow> string \<Rightarrow> bool" where
  "has_id tbl i = (i \<in> set (map ID tbl))"

text \<open>\<open>clickEventRepository.Create\<close>: a plain \<open>INSERT\<close> of the event.\<close>

definition click_Create :: "bool \<Rightarrow> ClickEvent \<Rightarrow> click_table \<Rightarrow> db_error option \<times> click_table" where
  "click_Create up ev tbl =
     (if \<not> up then (Some ErrStoreUnreachable, tbl)
      else if has_id tbl (ID ev) then (Some ErrDuplicatedKey, tbl)
      else (None, tbl @ [ev]))"

text \<open>
  \<open>clickEventRepository.UpdateStatus\<close>:
  \<open>UPDATE click_events SET status = ? WHERE id = ?\<close>. The only condition is on the id.
\<close>

definition UpdateStatus :: "bool \<Rightarrow> string \<Rightarrow> string \<Rightarrow> click_table \<Rightarrow> db_error option \<times> click_table" where
  "UpdateStatus up i s tbl =
     (if \<not> up then (Some ErrStoreUnreachable, tbl)
      else (None, map (\<lambda>e. if ID e = i then e\<lparr>Status := s\<rparr> else e) tbl))"

text \<open>
  \<open>clickEventRepository.UpdateExpiredPendingStatus\<close>:
  \<open>UPDATE click_events SET status = FAILED WHERE status = PENDING AND timestamp < ?\<close>,
  returning the number of rows affected.
\<close>

definition expired_pending :: "int \<Rightarrow> ClickEvent \<Rightarrow> bool" where
  "expired_pending expiredBefore e =
     (Status e = ClickStatusPending \<and> Timestamp e < expiredBefore)"

definition UpdateExpiredPendingStatus ::
  "bool \<Rightarrow> int \<Rightarrow> click_table \<Rightarrow> (nat \<times> db_error option) \<times> click_table" where
  "UpdateExpiredPendingStatus up expiredBefore tbl =
     (if \<not> up then ((0, Some ErrStoreUnreachable), tbl)
      else ((length (filter (expired_pending expiredBefore) tbl), None),
            map (\<lambda>e. if expired_pending expiredBefore e
                      then e\<lparr>Status := ClickStatusFailed\<rparr> else e) tbl))"

text \<open>
  \<open>ClickTimeoutChecker.checkExpiredPendingEvents\<close>: one tick of the sweeper at time
  \<open>now\<close>, with the checker's \<open>ttl\<close>.
\<close>

definition checkExpiredPendingEvents :: "bool \<Rightarrow> int \<Rightarrow> int \<Rightarrow> click_table \<Rightarrow> click_table" where
  "checkExpiredPendingEvents up ttl now tbl =
     snd (UpdateExpiredPendingStatus up (now - ttl) tbl)"

text \<open>The status of the event with a given id, if the table has it.\<close>

definition status_of :: "click_table \<Rightarrow> string \<Rightarrow> string option" where
  "status_of tbl i = map_option Status (find (\<lambda>e. ID e = i) tbl)"

definition terminal :: "string \<Rightarrow> bool" where
  "terminal s = (s = ClickStatusSuccess \<or> s = ClickStatusFailed)"

subsection \<open>The consumer\<close>

text \<open>
  A message of the durable log carries bytes. One \<open>Fetch\<close> answers with a batch and
  possibly an error; \<open>nats.ErrTimeout\<close> is the one error the loop does not log. The
  subscription is the sequence of answers its successive fetches get: a closed
  connection or a deleted consumer shows as an error at every later fetch.
\<close>

datatype fetch_error = ErrTimeout | ErrConnectionClosed | ErrBadSubscription

type_synonym subscription = "nat \<Rightarrow> string list \<times> fetch_error option"

datatype reply = Ack string | Nak string

text \<open>
  The consumer's state: the table, the replies sent so far (latest last), the number of
  fetches made and the number of inserts tried. \<open>store_up n\<close> says whether the store
  answers the insert number \<open>n\<close>.
\<close>

record consumer_state =
  rows :: click_table
  replies :: "reply list"
  fetches :: nat
  inserts :: nat

text \<open>
  The body of the loop over the batch, for one message: decode it (\<open>json.Unmarshal\<close>,
  here the parameter \<open>dec\<close>), insert the event, and acknowledge or not.
\<close>

definition handle_msg ::
  "(string \<Rightarrow> ClickEvent option) \<Rightarrow> (nat \<Rightarrow> bool) \<Rightarrow> consumer_state \<Rightarrow> string \<Rightarrow> consumer_state" where
  "handle_msg dec store_up st m =
     (case dec m of
        None \<Rightarrow> st\<lparr>replies := replies st @ [Nak m]\<rparr>
      | Some ev \<Rightarrow>
          (case click_Create (store_up (inserts st)) ev (rows st) of
             (Some err, t) \<Rightarrow>
               st\<lparr>rows := t, inserts := Suc (inserts st), replies := replies st @ [Nak m]\<rparr>
           | (None, t) \<Rightarrow>
               st\<lparr>rows := t, inserts := Suc (inserts st), replies := replies st @ [Ack m]\<rparr>))"

text \<open>One turn of the \<open>for\<close> loop: a fetch, then the batch (skipped on a fetch error).\<close>

definition cycle ::
  "(string \<Rightarrow> ClickEvent option) \<Rightarrow> (nat \<Rightarrow> bool) \<Rightarrow> subscription \<Rightarrow> consumer_state \<Rightarrow> consumer_state" where
  "cycle dec store_up sub st =
     (case sub (fetches st) of
        (msgs, err) \<Rightarrow>
          if err \<noteq> None \<and> err \<noteq> Some ErrTimeout
          then st\<lparr>fetches := Suc (fetches st)\<rparr>
          else foldl (handle_msg dec store_up) (st\<lparr>fetches := Suc (fetches st)\<rparr>) msgs)"

text \<open>
  \<open>ClickConsumer.consume\<close>: \<open>for { ... }\<close> with no condition, no \<open>break\<close> and no
  \<open>return\<close>. The result is the state the loop returns with, \<open>None\<close> when it never does.
\<close>

partial_function (option) consume ::
  "(string \<Rightarrow> ClickEvent option) \<Rightarrow> (nat \<Rightarrow> bool) \<Rightarrow> subscription \<Rightarrow> consumer_state \<Rightarrow> consumer_state option" where
  "consume dec store_up sub st = consume dec store_up sub (cycle dec store_up sub st)"

text \<open>The state after \<open>n\<close> turns of the loop.\<close>

fun turns ::
  "(string \<Rightarrow> ClickEvent option) \<Rightarrow> (nat \<Rightarrow> bool) \<Rightarrow> subscription \<Rightarrow> nat \<Rightarrow> consumer_state \<Rightarrow> consumer_state" where
  "turns dec store_up sub 0 st = st"
| "turns dec store_up sub (Suc n) st = turns dec store_up sub n (cycle dec store_up sub st)"


section \<open>Links: the store, the cache, the existence filter and the repository\<close>

text \<open>
  \<open>model.Link\<close>; the column \<open>code\<close> is the primary key. \<open>ExpiresAt\<close> is a pointer
  in the source (\<open>nil\<close> is \<open>None\<close>).
\<close>

record Link =
  Code :: string
  URL :: string
  Mode :: string
  TimerSeconds :: int
  Disabled :: bool
  ExpiresAt :: "int option"
  CreatedAt :: int
  UpdatedAt :: int

text \<open>The repository's own error, beside the store's errors that it hands on.\<close>

datatype link_error = ErrLinkNotFound | StoreFailure db_error

text \<open>The constants of \<open>link_repository.go\<close>; durations are nanoseconds, as in Go.\<close>

definition cacheKeyPrefix :: string where
  "cacheKeyPrefix = ''link:''"

definition cacheTTL :: int where
  "cacheTTL = 3600 * 1000000000"

definition cacheNullTTL :: int where
  "cacheNullTTL = 5 * 60 * 1000000000"

definition cacheNullValue :: string where
  "cacheNullValue = ''NULL''"

text \<open>
  \<open>encoding/json\<close> on links is a parameter: \<open>Marshal\<close> gives the bytes (or fails),
  \<open>Unmarshal\<close> gives the link the bytes decode to (or fails).
\<close>

record json =
  Marshal :: "Link \<Rightarrow> string option"
  Unmarshal :: "string \<Rightarrow> Link option"

text \<open>
  The calls the repository makes to its backends. The world they act on holds the
  \<open>links\<close> table, the cache (each key with its bytes and the time it expires at), the
  Bloom filter (the codes added to it, and the false positives it gives for the codes
  added so far), the log of the calls made (latest last), and for each call, by its
  position in the log, whether the backend answers it: a call that is not answered
  returns an error and changes nothing.
\<close>

datatype backend_call =
    BfAdd string
  | BfExists string
  | CacheGet string
  | CacheSet string string int
  | CacheDel string
  | DbInsert string
  | DbSelect string
  | DbUpdate string

record world =
  links :: "Link list"
  cache :: "string \<Rightarrow> (string \<times> int) option"
  bloom_added :: "string list"
  bloom_fp :: "string list \<Rightarrow> string \<Rightarrow> bool"
  calls :: "backend_call list"
  answers :: "nat \<Rightarrow> bool"

definition backend :: "backend_call \<Rightarrow> world \<Rightarrow> bool \<times> world" where
  "backend c w = (answers w (length (calls w)), w\<lparr>calls := calls w @ [c]\<rparr>)"

text \<open>Redis \<open>GET\<close>: the bytes of a key that has not expired; \<open>None\<close> on a miss or an error.\<close>

definition redis_Get :: "int \<Rightarrow> string \<Rightarrow> world \<Rightarrow> string option \<times> world" where
  "redis_Get now k w =
     (case backend (CacheGet k) w of
        (ok, w1) \<Rightarrow>
          (if ok then (case cache w1 k of
                         Some (v, expires) \<Rightarrow> if now < expires then Some v else None
                       | None \<Rightarrow> None)
           else None, w1))"

text \<open>Redis \<open>SET\<close> with a time to live, and \<open>DEL\<close>; the source ignores their errors.\<close>

definition redis_Set :: "int \<Rightarrow> string \<Rightarrow> string \<Rightarrow> int \<Rightarrow> world \<Rightarrow> world" where
  "redis_Set now k v ttl w =
     (case backend (CacheSet k v ttl) w of
        (ok, w1) \<Rightarrow> if ok then w1\<lparr>cache := (cache w1)(k \<mapsto> (v, now + ttl))\<rparr> else w1)"

definition redis_Del :: "string \<Rightarrow> world \<Rightarrow> world" where
  "redis_Del k w =
     (case backend (CacheDel k) w of
        (ok, w1) \<Rightarrow> if ok then w1\<lparr>cache := (cache w1)(k := None)\<rparr> else w1)"

text \<open>\<open>BF.ADD\<close> and \<open>BF.EXISTS\<close> (1 or 0, \<open>None\<close> on an error).\<close>

definition bf_Add :: "string \<Rightarrow> world \<Rightarrow> world" where
  "bf_Add code w =
     (case backend (BfAdd code) w of
        (ok, w1) \<Rightarrow> if ok then w1\<lparr>bloom_added := code # bloom_added w1\<rparr> else w1)"

definition bf_Exists :: "string \<Rightarrow> world \<Rightarrow> int option \<times> world" where
  "bf_Exists code w =
     (case backend (BfExists code) w of
        (ok, w1) \<Rightarrow>
          (if ok then Some (if code \<in> set (bloom_added w1) \<or> bloom_fp w1 (bloom_added w1) code
                            then 1 else 0)
           else None, w1))"

text \<open>
  What the mapper does to the struct it is given to insert, at the time \<open>now\<close>, before
  it sends the \<open>INSERT\<close>: an empty \<open>Mode\<close> takes the column's default
  (\<open>default:direct\<close>), and \<open>CreatedAt\<close> (\<open>autoCreateTime\<close>) and \<open>UpdatedAt\<close>
  (\<open>autoUpdateTime\<close>) take the current time when they hold Go's zero time, the first
  instant of the year 1. The defaults of \<open>TimerSeconds\<close> (0) and \<open>Disabled\<close> (false)
  are the values an empty field already has.
\<close>

definition zeroTime :: int where
  "zeroTime = - 62135596800 * 1000000000"

definition with_defaults :: "int \<Rightarrow> Link \<Rightarrow> Link" where
  "with_defaults now l =
     l\<lparr>Mode := (if Mode l = [] then ''direct'' else Mode l),
       CreatedAt := (if CreatedAt l = zeroTime then now else CreatedAt l),
       UpdatedAt := (if UpdatedAt l = zeroTime then now else UpdatedAt l)\<rparr>"

text \<open>
  The store: \<open>INSERT\<close> (the primary key must be new), \<open>SELECT ... WHERE code = ?\<close>
  (\<open>First\<close>) and \<open>UPDATE ... WHERE code = ?\<close> of the five columns the repository
  names, which answers with the number of rows affected and stamps \<open>updated_at\<close>.
  \<open>db_Create\<close> also returns the struct as the call leaves it to the caller: with the
  defaults filled in once the store has answered (the mapper opens its transaction
  first, and stops there when it cannot), untouched otherwise.
\<close>

definition db_Create :: "int \<Rightarrow> Link \<Rightarrow> world \<Rightarrow> db_error option \<times> Link \<times> world" where
  "db_Create now l w =
     (case backend (DbInsert (Code l)) w of
        (ok, w1) \<Rightarrow>
          if \<not> ok then (Some ErrStoreUnreachable, l, w1)
          else (let row = with_defaults now l
                in if Code row \<in> set (map Code (links w1)) then (Some ErrDuplicatedKey, row, w1)
                   else (None, row, w1\<lparr>links := links w1 @ [row]\<rparr>)))"

definition db_First :: "string \<Rightarrow> world \<Rightarrow> (db_error + Link) \<times> world" where
  "db_First code w =
     (case backend (DbSelect code) w of
        (ok, w1) \<Rightarrow>
          if \<not> ok then (Inl ErrStoreUnreachable, w1)
          else (case find (\<lambda>l. Code l = code) (links w1) of
                  None \<Rightarrow> (Inl ErrRecordNotFound, w1)
                | Some l \<Rightarrow> (Inr l, w1)))"

definition db_Updates :: "int \<Rightarrow> Link \<Rightarrow> world \<Rightarrow> (db_error + nat) \<times> world" where
  "db_Updates now l w =
     (case backend (DbUpdate (Code l)) w of
        (ok, w1) \<Rightarrow>
          if \<not> ok then (Inl ErrStoreUnreachable, w1)
          else (Inr (length (filter (\<lambda>x. Code x = Code l) (links w1))),
                w1\<lparr>links := map (\<lambda>x. if Code x = Code l
                                       then x\<lparr>URL := URL l, Mode := Mode l,
                                              TimerSeconds := TimerSeconds l,
                                              Disabled := Disabled l,
                                              ExpiresAt := ExpiresAt l,
                                              UpdatedAt := now\<rparr>
                                       else x) (links w1)\<rparr>))"

text \<open>
  The struct \<open>linkRepository\<close>: whether a Redis client was given (\<open>redis != nil\<close>) and
  the flag \<open>bloomSupported\<close> that \<open>initBloomFilter\<close> sets. The store handle is always
  there.
\<close>

record linkRepository =
  has_redis :: bool
  bloomSupported :: bool

definition bloomAdd :: "linkRepository \<Rightarrow> string \<Rightarrow> world \<Rightarrow> world" where
  "bloomAdd r code w =
     (if \<not> bloomSupported r \<or> \<not> has_redis r then w else bf_Add code w)"

definition bloomExists :: "linkRepository \<Rightarrow> string \<Rightarrow> world \<Rightarrow> bool \<times> world" where
  "bloomExists r code w =
     (if \<not> bloomSupported r \<or> \<not> has_redis r then (True, w)
      else (case bf_Exists code w of
              (None, w1) \<Rightarrow> (True, w1)
            | (Some n, w1) \<Rightarrow> (n = 1, w1)))"

text \<open>
  \<open>linkRepository.Create\<close> at the time \<open>now\<close>: the error (if any), the link as the
  call leaves it and the world.
\<close>

definition Create ::
  "linkRepository \<Rightarrow> int \<Rightarrow> Link \<Rightarrow> world \<Rightarrow> db_error option \<times> Link \<times> world" where
  "Create r now l w =
     (case db_Create now l w of
        (Some err, l', w1) \<Rightarrow> (Some err, l', w1)
      | (None, l', w1) \<Rightarrow> (None, l', bloomAdd r (Code l') w1))"

text \<open>\<open>linkRepository.GetByCode\<close>, at the time \<open>now\<close>.\<close>

definition GetByCode ::
  "json \<Rightarrow> linkRepository \<Rightarrow> int \<Rightarrow> string \<Rightarrow> world \<Rightarrow> (link_error + Link) \<times> world" where
  "GetByCode J r now code w =
     (case bloomExists r code w of
        (False, w1) \<Rightarrow> (Inl ErrLinkNotFound, w1)
      | (True, w1) \<Rightarrow>
          (let cacheKey = cacheKeyPrefix @ code;
               probe =
                 (if has_redis r then
                    (case redis_Get now cacheKey w1 of
                       (Some cached, w2) \<Rightarrow>
                         if cached = cacheNullValue then (Some (Inl ErrLinkNotFound), w2)
                         else (case Unmarshal J cached of
                                 Some l \<Rightarrow> (Some (Inr l), w2)
                               | None \<Rightarrow> (None, w2))
                     | (None, w2) \<Rightarrow> (None, w2))
                  else (None, w1))
           in case probe of
                (Some res, w2) \<Rightarrow> (res, w2)
              | (None, w2) \<Rightarrow>
                  (case db_First code w2 of
                     (Inl err, w3) \<Rightarrow>
                       if err = ErrRecordNotFound
                       then (Inl ErrLinkNotFound,
                             if has_redis r
                             then redis_Set now cacheKey cacheNullValue cacheNullTTL w3
                             else w3)
                       else (Inl (StoreFailure err), w3)
                   | (Inr l, w3) \<Rightarrow>
                       (Inr l,
                        if has_redis r
                        then (case Marshal J l of
                                Some data \<Rightarrow> redis_Set now cacheKey data cacheTTL w3
                              | None \<Rightarrow> w3)
                        else w3))))"

text \<open>
  \<open>linkRepository.Update\<close>: the error (if any), the link as the call leaves it (read
  back from the store on success) and the world.
\<close>

definition Update ::
  "linkRepository \<Rightarrow> int \<Rightarrow> Link \<Rightarrow> world \<Rightarrow> link_error option \<times> Link \<times> world" where
  "Update r now l w =
     (case db_Updates now l w of
        (Inl err, w1) \<Rightarrow> (Some (StoreFailure err), l, w1)
      | (Inr n, w1) \<Rightarrow>
          if n = 0 then (Some ErrLinkNotFound, l, w1)
          else (case db_First (Code l) w1 of
                  (Inl err, w2) \<Rightarrow> (Some (StoreFailure err), l, w2)
                | (Inr l', w2) \<Rightarrow>
                    (None, l',
                     if has_redis r then redis_Del (cacheKeyPrefix @ Code l') w2 else w2)))"

text \<open>What the claims count: reads of the cache, writes of the cache, reads of the store.\<close>

fun is_cache_read :: "backend_call \<Rightarrow> bool" where
  "is_cache_read (CacheGet k) = True"
| "is_cache_read c = False"

fun is_cache_write :: "backend_call \<Rightarrow> bool" where
  "is_cache_write (CacheSet k v t) = True"
| "is_cache_write (CacheDel k) = True"
| "is_cache_write c = False"

fun is_store_read :: "backend_call \<Rightarrow> bool" where
  "is_store_read (DbSelect c) = True"
| "is_store_read c = False"

definition store_reads :: "world \<Rightarrow> nat" where
  "store_reads w = length (filter is_store_read (calls w))"

text \<open>
  What the claims say of the cache, at a time \<open>now\<close>: the key of a code holds a positive
  entry (bytes that have not expired, are not the sentinel and decode to a link), or it
  holds the negative sentinel, not yet expired.
\<close>

definition positive_entry :: "json \<Rightarrow> int \<Rightarrow> world \<Rightarrow> string \<Rightarrow> bool" where
  "positive_entry J now w code =
     (case cache w (cacheKeyPrefix @ code) of
        None \<Rightarrow> False
      | Some (v, expires) \<Rightarrow> now < expires \<and> v \<noteq> cacheNullValue \<and> Unmarshal J v \<noteq> None)"

definition live_sentinel :: "int \<Rightarrow> world \<Rightarrow> string \<Rightarrow> bool" where
  "live_sentinel now w code =
     (case cache w (cacheKeyPrefix @ code) of
        None \<Rightarrow> False
      | Some (v, expires) \<Rightarrow> now < expires \<and> v = cacheNullValue)"

text \<open>
  The two parts of \<open>GetByCode\<close> after the filter, named for the proofs: the probe of the
  cache (lines 100 to 111 of the source; \<open>None\<close> falls through) and the read of the
  store with the write to the cache (lines 113 to 131). \<open>GetByCode_phases\<close> below
  shows that \<open>GetByCode\<close> is their composition.
\<close>

definition cache_phase ::
  "json \<Rightarrow> linkRepository \<Rightarrow> int \<Rightarrow> string \<Rightarrow> world \<Rightarrow> (link_error + Link) option \<times> world" where
  "cache_phase J r now code w =
     (if has_redis r then
        (case redis_Get now (cacheKeyPrefix @ code) w of
           (Some cached, w2) \<Rightarrow>
             if cached = cacheNullValue then (Some (Inl ErrLinkNotFound), w2)
             else (case Unmarshal J cached of
                     Some l \<Rightarrow> (Some (Inr l), w2)
                   | None \<Rightarrow> (None, w2))
         | (None, w2) \<Rightarrow> (None, w2))
      else (None, w))"

definition store_phase ::
  "json \<Rightarrow> linkRepository \<Rightarrow> int \<Rightarrow> string \<Rightarrow> world \<Rightarrow> (link_error + Link) \<times> world" where
  "store_phase J r now code w =
     (case db_First code w of
        (Inl err, w3) \<Rightarrow>
          if err = ErrRecordNotFound
          then (Inl ErrLinkNotFound,
                if has_redis r
                then redis_Set now (cacheKeyPrefix @ code) cacheNullValue cacheNullTTL w3
                else w3)
          else (Inl (StoreFailure err), w3)
      | (Inr l, w3) \<Rightarrow>
          (Inr l,
           if has_redis r
           then (case Marshal J l of
                   Some data \<Rightarrow> redis_Set now (cacheKeyPrefix @ code) data cacheTTL w3
                 | None \<Rightarrow> w3)
           else w3))"

text \<open>
  Normal operation: every backend call is answered. And: the filter lets a code through
  (\<open>bloomExists\<close> returns true).
\<close>

definition all_answered :: "world \<Rightarrow> bool" where
  "all_answered w = (\<forall>k. answers w k)"

definition passes :: "linkRepository \<Rightarrow> string \<Rightarrow> world \<Rightarrow> bool" where
  "passes r code w = fst (bloomExists r code w)"

text \<open>
  The states the repository reaches: from a world, by any sequence of its three
  operations, at any times and in any order.
\<close>

datatype request = ReqCreate int Link | ReqGet int string | ReqUpdate int Link

fun serve :: "json \<Rightarrow> linkRepository \<Rightarrow> world \<Rightarrow> request \<Rightarrow> world" where
  "serve J r w (ReqCreate now l) = snd (snd (Create r now l w))"
| "serve J r w (ReqGet now code) = snd (GetByCode J r now code w)"
| "serve J r w (ReqUpdate now l) = snd (snd (Update r now l w))"

definition serve_all :: "json \<Rightarrow> linkRepository \<Rightarrow> request list \<Rightarrow> world \<Rightarrow> world" where
  "serve_all J r reqs w = foldl (serve J r) w reqs"

text \<open>
  Concrete inputs for the examples: a link, a stand-in for \<open>encoding/json\<close> that decodes
  one string, a repository with cache and filter, a world holding the link (whose filter
  gives a false positive for the code \<open>zzz\<close>), and a world in which the second backend
  call is not answered.
\<close>

definition example_link :: Link where
  "example_link = \<lparr>Code = ''abc'', URL = ''https://example.org/a'', Mode = ''click'',
     TimerSeconds = 0, Disabled = False, ExpiresAt = None, CreatedAt = 1000, UpdatedAt = 1000\<rparr>"

definition example_codec :: json where
  "example_codec = \<lparr>Marshal = (\<lambda>l. Some (Code l @ '' '' @ URL l)),
     Unmarshal = (\<lambda>s. if s = ''abc https://example.org/a'' then Some example_link else None)\<rparr>"

definition example_repo :: linkRepository where
  "example_repo = \<lparr>has_redis = True, bloomSupported = True\<rparr>"

definition example_world :: world where
  "example_world = \<lparr>links = [example_link], cache = (\<lambda>k. None), bloom_added = [''abc''],
     bloom_fp = (\<lambda>added c. c = ''zzz''), calls = [], answers = (\<lambda>k. True)\<rparr>"

definition flaky_world :: world where
  "flaky_world = \<lparr>links = [], cache = (\<lambda>k. None), bloom_added = [],
     bloom_fp = (\<lambda>added c. False), calls = [], answers = (\<lambda>k. k \<noteq> 1)\<rparr>"

text \<open>
  Further inputs: a repository built with no Redis client (\<open>initBloomFilter\<close> then
  leaves \<open>bloomSupported\<close> false), the world of the example with its fourth backend
  call not answered, the same with its seventh not answered, and the example's link
  with another URL.
\<close>

definition plain_repo :: linkRepository where
  "plain_repo = \<lparr>has_redis = False, bloomSupported = False\<rparr>"

definition lossy_world :: world where
  "lossy_world = example_world\<lparr>answers := (\<lambda>k. k \<noteq> 3)\<rparr>"

definition stale_world :: world where
  "stale_world = example_world\<lparr>answers := (\<lambda>k. k \<noteq> 6)\<rparr>"

definition moved_link :: Link where
  "moved_link = example_link\<lparr>URL := ''https://example.org/new''\<rparr>"


section \<open>The redirect token\<close>

type_synonym byte = "8 word"

text \<open>Go's conversions \<open>[]byte(s)\<close> and \<open>string(b)\<close>: a string is its bytes.\<close>

definition bytes_of :: "string \<Rightarrow> byte list" where
  "bytes_of s = map of_char s"

definition string_of :: "byte list \<Rightarrow> string" where
  "string_of bs = map (\<lambda>b. char_of (unat b)) bs"

subsection \<open>SHA-256 and HMAC (\<open>crypto/sha256\<close>, \<open>crypto/hmac\<close>)\<close>

text \<open>
  The hash of the standard library, as FIPS 180-4 and RFC 2104 define it; the round
  constants and the initial hash value are written in decimal.
\<close>

definition K256 :: "32 word list" where
  "K256 =
    [1116352408, 1899447441, 3049323471, 3921009573, 961987163, 1508970993, 2453635748,
     2870763221, 3624381080, 310598401, 607225278, 1426881987, 1925078388, 2162078206,
     2614888103, 3248222580, 3835390401, 4022224774, 264347078, 604807628, 770255983,
     1249150122, 1555081692, 1996064986, 2554220882, 2821834349, 2952996808, 3210313671,
     3336571891, 3584528711, 113926993, 338241895, 666307205, 773529912, 1294757372,
     1396182291, 1695183700, 1986661051, 2177026350, 2456956037, 2730485921, 2820302411,
     3259730800, 3345764771, 3516065817, 3600352804, 4094571909, 275423344, 430227734,
     506948616, 659060556, 883997877, 958139571, 1322822218, 1537002063, 1747873779,
     1955562222, 2024104815, 2227730452, 2361852424, 2428436474, 2756734187, 3204031479,
     3329325298]"

definition H256 :: "32 word \<times> 32 word \<times> 32 word \<times> 32 word \<times> 32 word \<times> 32 word \<times> 32 word \<times> 32 word" where
  "H256 = (1779033703, 3144134277, 1013904242, 2773480762,
           1359893119, 2600822924, 528734635, 1541459225)"

definition Ch :: "32 word \<Rightarrow> 32 word \<Rightarrow> 32 word \<Rightarrow> 32 word" where
  "Ch x y z = (x AND y) XOR (NOT x AND z)"

definition Maj :: "32 word \<Rightarrow> 32 word \<Rightarrow> 32 word \<Rightarrow> 32 word" where
  "Maj x y z = (x AND y) XOR (x AND z) XOR (y AND z)"

definition Sigma0 :: "32 word \<Rightarrow> 32 word" where
  "Sigma0 x = word_rotr 2 x XOR word_rotr 13 x XOR word_rotr 22 x"

definition Sigma1 :: "32 word \<Rightarrow> 32 word" where
  "Sigma1 x = word_rotr 6 x XOR word_rotr 11 x XOR word_rotr 25 x"

definition sigma0 :: "32 word \<Rightarrow> 32 word" where
  "sigma0 x = word_rotr 7 x XOR word_rotr 18 x XOR drop_bit 3 x"

definition sigma1 :: "32 word \<Rightarrow> 32 word" where
  "sigma1 x = word_rotr 17 x XOR word_rotr 19 x XOR drop_bit 10 x"

text \<open>Big-endian words: \<open>binary.BigEndian\<close>.\<close>

definition be32 :: "byte list \<Rightarrow> 32 word" where
  "be32 bs = foldl (\<lambda>acc b. push_bit 8 acc OR ucast b) 0 (take 4 bs)"

definition be16 :: "byte list \<Rightarrow> 16 word" where
  "be16 bs = foldl (\<lambda>acc b. push_bit 8 acc OR ucast b) 0 (take 2 bs)"

definition be32_bytes :: "32 word \<Rightarrow> byte list" where
  "be32_bytes w = [ucast (drop_bit 24 w), ucast (drop_bit 16 w), ucast (drop_bit 8 w), ucast w]"

definition be64_bytes :: "64 word \<Rightarrow> byte list" where
  "be64_bytes w = map (\<lambda>i. ucast (drop_bit (8 * (7 - i)) w)) [0..<8]"

text \<open>Padding: the byte \<open>0x80\<close>, zeros up to 56 modulo 64, the length in bits.\<close>

definition sha_pad :: "byte list \<Rightarrow> byte list" where
  "sha_pad m =
     m @ [0x80] @ replicate ((119 - length m mod 64) mod 64) 0 @ be64_bytes (of_nat (8 * length m))"

function chunks :: "nat \<Rightarrow> 'a list \<Rightarrow> 'a list list" where
  "chunks n xs = (if n = 0 \<or> xs = [] then [] else take n xs # chunks n (drop n xs))"
  by pat_completeness auto
termination
  by (relation "measure (\<lambda>(n, xs). length xs)") auto

text \<open>The message schedule of a block: 16 words of the block, extended to 64.\<close>

fun extend_schedule :: "nat \<Rightarrow> 32 word list \<Rightarrow> 32 word list" where
  "extend_schedule 0 ws = ws"
| "extend_schedule (Suc n) ws =
     (let t = length ws
      in extend_schedule n
           (ws @ [sigma1 (ws ! (t - 2)) + ws ! (t - 7) + sigma0 (ws ! (t - 15)) + ws ! (t - 16)]))"

definition schedule :: "byte list \<Rightarrow> 32 word list" where
  "schedule block = extend_schedule 48 (map be32 (chunks 4 block))"

fun sha_round ::
  "32 word \<times> 32 word \<times> 32 word \<times> 32 word \<times> 32 word \<times> 32 word \<times> 32 word \<times> 32 word \<Rightarrow>
   32 word \<times> 32 word \<Rightarrow>
   32 word \<times> 32 word \<times> 32 word \<times> 32 word \<times> 32 word \<times> 32 word \<times> 32 word \<times> 32 word" where
  "sha_round (a, b, c, d, e, f, g, h) (k, w) =
     (let t1 = h + Sigma1 e + Ch e f g + k + w;
          t2 = Sigma0 a + Maj a b c
      in (t1 + t2, a, b, c, d + t1, e, f, g))"

fun sha_add ::
  "32 word \<times> 32 word \<times> 32 word \<times> 32 word \<times> 32 word \<times> 32 word \<times> 32 word \<times> 32 word \<Rightarrow>
   32 word \<times> 32 word \<times> 32 word \<times> 32 word \<times> 32 word \<times> 32 word \<times> 32 word \<times> 32 word \<Rightarrow>
   32 word \<times> 32 word \<times> 32 word \<times> 32 word \<times> 32 word \<times> 32 word \<times> 32 word \<times> 32 word" where
  "sha_add (a, b, c, d, e, f, g, h) (a', b', c', d', e', f', g', h') =
     (a + a', b + b', c + c', d + d', e + e', f + f', g + g', h + h')"

definition compress ::
  "32 word \<times> 32 word \<times> 32 word \<times> 32 word \<times> 32 word \<times> 32 word \<times> 32 word \<times> 32 word \<Rightarrow>
   byte list \<Rightarrow>
   32 word \<times> 32 word \<times> 32 word \<times> 32 word \<times> 32 word \<times> 32 word \<times> 32 word \<times> 32 word" where
  "compress H block = sha_add H (foldl sha_round H (zip K256 (schedule block)))"

fun digest_bytes ::
  "32 word \<times> 32 word \<times> 32 word \<times> 32 word \<times> 32 word \<times> 32 word \<times> 32 word \<times> 32 word \<Rightarrow> byte list" where
  "digest_bytes (a, b, c, d, e, f, g, h) =
     be32_bytes a @ be32_bytes b @ be32_bytes c @ be32_bytes d @
     be32_bytes e @ be32_bytes f @ be32_bytes g @ be32_bytes h"

definition sha256 :: "byte list \<Rightarrow> byte list" where
  "sha256 m = digest_bytes (foldl compress H256 (chunks 64 (sha_pad m)))"

text \<open>
  HMAC with SHA-256 (block size 64): a key longer than a block is hashed first, then
  padded with zeros to a block.
\<close>

definition hmac_sha256 :: "byte list \<Rightarrow> byte list \<Rightarrow> byte list" where
  "hmac_sha256 key m =
     (let k0 = (if length key > 64 then sha256 key else key);
          k = k0 @ replicate (64 - length k0) 0
      in sha256 (map (\<lambda>b. b XOR 0x5c) k @ sha256 (map (\<lambda>b. b XOR 0x36) k @ m)))"


subsection \<open>Base64 without padding, URL alphabet (\<open>base64.RawURLEncoding\<close>)\<close>

definition encodeURL :: string where
  "encodeURL = ''ABCDEFGHIJKLMNOPQRSTUVWXYZabcdefghijklmnopqrstuvwxyz0123456789-_''"

text \<open>
  The encoder's table is \<open>encodeURL\<close>, indexed by a 6-bit value; the decoder's table
  \<open>decodeMap\<close> gives each character of the alphabet its index, and nothing to any other
  byte.
\<close>

definition decodeMap :: "char \<Rightarrow> nat option" where
  "decodeMap = map_of (zip encodeURL [0..<64])"

text \<open>
  \<open>Encode\<close>: three bytes give \<open>val = b0 << 16 | b1 << 8 | b2\<close> and the four values
  \<open>val >> 18 & 0x3F\<close>, \<open>val >> 12 & 0x3F\<close>, \<open>val >> 6 & 0x3F\<close>, \<open>val & 0x3F\<close>; a
  remainder of one byte gives two values and of two bytes three, with no padding
  character. The shifts and masks are written as \<open>div\<close> and \<open>mod\<close> on \<open>nat\<close>.
\<close>

fun sextets :: "byte list \<Rightarrow> nat list" where
  "sextets (b0 # b1 # b2 # bs) =
     (let val = unat b0 * 65536 + unat b1 * 256 + unat b2
      in val div 262144 mod 64 # val div 4096 mod 64 # val div 64 mod 64 # val mod 64 # sextets bs)"
| "sextets [b0, b1] =
     (let val = unat b0 * 65536 + unat b1 * 256
      in [val div 262144 mod 64, val div 4096 mod 64, val div 64 mod 64])"
| "sextets [b0] =
     (let val = unat b0 * 65536
      in [val div 262144 mod 64, val div 4096 mod 64])"
| "sextets [] = []"

definition EncodeToString :: "byte list \<Rightarrow> string" where
  "EncodeToString bs = map (\<lambda>v. encodeURL ! v) (sextets bs)"

text \<open>
  \<open>DecodeString\<close>, as \<open>decodeQuantum\<close> reads its input: carriage returns and line
  feeds are skipped wherever they stand; any other byte outside the alphabet is an error
  (there is no padding character to accept); four values give
  \<open>val = v0 << 18 | v1 << 12 | v2 << 6 | v3\<close> and the bytes \<open>val >> 16\<close>, \<open>val >> 8\<close>,
  \<open>val\<close>; at the end of the input a single value is an error, two values give one
  byte and three give two. The encoding is not strict: the bits of \<open>val\<close> that no byte
  takes are not looked at.
\<close>

fun unsextets :: "nat list \<Rightarrow> byte list option" where
  "unsextets (v0 # v1 # v2 # v3 # vs) =
     (let val = v0 * 262144 + v1 * 4096 + v2 * 64 + v3
      in map_option (\<lambda>bs. of_nat (val div 65536) # of_nat (val div 256) # of_nat val # bs)
           (unsextets vs))"
| "unsextets [v0, v1, v2] =
     (let val = v0 * 262144 + v1 * 4096 + v2 * 64
      in Some [of_nat (val div 65536), of_nat (val div 256)])"
| "unsextets [v0, v1] =
     (let val = v0 * 262144 + v1 * 4096
      in Some [of_nat (val div 65536)])"
| "unsextets [v0] = None"
| "unsextets [] = Some []"

definition DecodeString :: "string \<Rightarrow> byte list option" where
  "DecodeString s =
     (case those (map decodeMap (filter (\<lambda>c. c \<noteq> CHR 0x0A \<and> c \<noteq> CHR 0x0D) s)) of
        None \<Rightarrow> None
      | Some vs \<Rightarrow> unsextets vs)"

subsection \<open>\<open>TokenSigner\<close>\<close>

text \<open>
  The two errors the package declares, the error of the random source, and the run-time
  panic of a slice expression whose bounds are out of range, which is no returned
  error: it unwinds the caller.
\<close>

datatype token_error = ErrInvalidToken | ErrMissingSecret | ErrEntropy | PanicSliceBounds

record TokenSigner =
  secret :: "byte list"
  ttl :: int

text \<open>
  \<open>time.Time.Unix\<close>: the seconds of a time given in nanoseconds. \<open>uint32(...)\<close> of
  the seconds keeps them modulo \<open>2 ^ 32\<close>.
\<close>

definition Unix :: "int \<Rightarrow> int" where
  "Unix t = t div 1000000000"

text \<open>\<open>TokenSigner.sign\<close>: the MAC of \<open>code\<close>, a bar and the payload.\<close>

definition sign :: "TokenSigner \<Rightarrow> string \<Rightarrow> byte list \<Rightarrow> byte list" where
  "sign s code payload = hmac_sha256 (secret s) (bytes_of code @ bytes_of ''|'' @ payload)"

text \<open>
  \<open>TokenSigner.IssueWithClickID\<close> at the time \<open>now\<close>; \<open>rnd\<close> is what the system's
  random source has to give, of which \<open>rand.Read\<close> takes eight bytes (fewer is its
  error). \<open>uint16(len(clickIDBytes))\<close> keeps the length modulo \<open>2 ^ 16\<close>.
\<close>

definition IssueWithClickID ::
  "TokenSigner \<Rightarrow> int \<Rightarrow> byte list \<Rightarrow> string \<Rightarrow> string \<Rightarrow> token_error + string" where
  "IssueWithClickID s now rnd code clickID =
     (if length (secret s) = 0 then Inl ErrMissingSecret
      else if length rnd < 8 then Inl ErrEntropy
      else
        (let expires = (word_of_int (Unix (now + ttl s)) :: 32 word);
             basePayload = be32_bytes expires @ take 8 rnd;
             payload =
               (if clickID \<noteq> []
                then (let clickIDBytes = bytes_of clickID;
                          clickIDLen = (of_nat (length clickIDBytes) :: 16 word)
                      in [ucast (drop_bit 8 clickIDLen), ucast clickIDLen] @ clickIDBytes @ basePayload)
                else basePayload);
             payloadEnc = EncodeToString payload;
             signature = sign s code payload;
             sigEnc = EncodeToString (take 16 signature)
         in Inr (payloadEnc @ ''.'' @ sigEnc)))"

definition Issue :: "TokenSigner \<Rightarrow> int \<Rightarrow> byte list \<Rightarrow> string \<Rightarrow> token_error + string" where
  "Issue s now rnd code = IssueWithClickID s now rnd code []"

text \<open>\<open>strings.SplitN(token, ".", 2)\<close> when it gives two parts.\<close>

definition SplitN2 :: "string \<Rightarrow> (string \<times> string) option" where
  "SplitN2 token =
     (if CHR ''.'' \<in> set token
      then Some (takeWhile (\<lambda>c. c \<noteq> CHR ''.'') token, tl (dropWhile (\<lambda>c. c \<noteq> CHR ''.'') token))
      else None)"

text \<open>
  \<open>TokenSigner.ValidateAndExtractClickID\<close> at the time \<open>now\<close>. \<open>clickIDLen\<close> is a
  \<open>uint16\<close>, and so is the bound \<open>2+clickIDLen\<close> of the two slice expressions: it
  wraps to 0 or 1 for the lengths 65534 and 65535, and \<open>payload[2:0]\<close> and
  \<open>payload[2:1]\<close> panic. The test before them is made on \<open>int\<close>.
\<close>

definition ValidateAndExtractClickID ::
  "TokenSigner \<Rightarrow> int \<Rightarrow> string \<Rightarrow> string \<Rightarrow> token_error + string" where
  "ValidateAndExtractClickID s now code token =
     (if length (secret s) = 0 then Inl ErrMissingSecret
      else case SplitN2 token of
        None \<Rightarrow> Inl ErrInvalidToken
      | Some (part0, part1) \<Rightarrow>
          (case DecodeString part0 of
             None \<Rightarrow> Inl ErrInvalidToken
           | Some payload \<Rightarrow>
               (case DecodeString part1 of
                  None \<Rightarrow> Inl ErrInvalidToken
                | Some sigProvided \<Rightarrow>
                    if length sigProvided \<noteq> 16 then Inl ErrInvalidToken
                    else if sigProvided \<noteq> take 16 (sign s code payload) then Inl ErrInvalidToken
                    else if length payload < 4 then Inl ErrInvalidToken
                    else
                      (let sliced =
                             (if length payload > 14
                              then (let clickIDLen = be16 payload
                                    in if unat clickIDLen + 2 + 12 \<le> length payload
                                       then (let hi = unat (2 + clickIDLen)
                                             in if hi < 2 then None
                                                else Some (string_of (take (hi - 2) (drop 2 payload)),
                                                           drop hi payload))
                                       else Some ([], payload))
                              else Some ([], payload))
                       in case sliced of
                            None \<Rightarrow> Inl PanicSliceBounds
                          | Some (clickID, basePayload) \<Rightarrow>
                              (let expires = be32 basePayload
                               in if Unix now > uint expires then Inl ErrInvalidToken
                                  else Inr clickID)))))"

definition Validate :: "TokenSigner \<Rightarrow> int \<Rightarrow> string \<Rightarrow> string \<Rightarrow> token_error option" where
  "Validate s now code token =
     (case ValidateAndExtractClickID s now code token of Inl err \<Rightarrow> Some err | Inr clickID \<Rightarrow> None)"

text \<open>
  Two parts of the source named for the proofs. \<open>check_payload\<close> is the end of
  \<open>ValidateAndExtractClickID\<close>, from the length check of the payload on (lines 390 to
  414 of the source); \<open>issued_payload\<close> is the payload \<open>IssueWithClickID\<close> builds
  (lines 327 to 347). \<open>Validate_parts\<close> and \<open>Issue_token\<close> below show that the two
  functions are made of them.
\<close>

definition check_payload :: "int \<Rightarrow> byte list \<Rightarrow> token_error + string" where
  "check_payload now payload =
     (if length payload < 4 then Inl ErrInvalidToken
      else
        (let sliced =
               (if length payload > 14
                then (let clickIDLen = be16 payload
                      in if unat clickIDLen + 2 + 12 \<le> length payload
                         then (let hi = unat (2 + clickIDLen)
                               in if hi < 2 then None
                                  else Some (string_of (take (hi - 2) (drop 2 payload)),
                                             drop hi payload))
                         else Some ([], payload))
                else Some ([], payload))
         in case sliced of
              None \<Rightarrow> Inl PanicSliceBounds
            | Some (clickID, basePayload) \<Rightarrow>
                (let expires = be32 basePayload
                 in if Unix now > uint expires then Inl ErrInvalidToken
                    else Inr clickID)))"

definition issued_payload :: "TokenSigner \<Rightarrow> int \<Rightarrow> byte list \<Rightarrow> string \<Rightarrow> byte list" where
  "issued_payload s now rnd clickID =
     (let expires = (word_of_int (Unix (now + ttl s)) :: 32 word);
          basePayload = be32_bytes expires @ take 8 rnd
      in if clickID \<noteq> []
         then (let clickIDBytes = bytes_of clickID;
                   clickIDLen = (of_nat (length clickIDBytes) :: 16 word)
               in [ucast (drop_bit 8 clickIDLen), ucast clickIDLen] @ clickIDBytes @ basePayload)
         else basePayload)"

text \<open>
  What the decoder reads of a sequence of 6-bit values: everything but the low bits of
  the last value of an incomplete group (four bits of the second value, two of the
  third), which no decoded byte takes.
\<close>

fun canon :: "nat list \<Rightarrow> nat list" where
  "canon (v0 # v1 # v2 # v3 # vs) = v0 # v1 # v2 # v3 # canon vs"
| "canon [v0, v1, v2] = [v0, v1, v2 div 4 * 4]"
| "canon [v0, v1] = [v0, v1 div 16 * 16]"
| "canon [v0] = [v0]"
| "canon [] = []"

text \<open>
  Tampering: \<open>flip_char b c\<close> flips bit \<open>b\<close> of the byte \<open>c\<close>, \<open>flip_at i b s\<close> does so
  at position \<open>i\<close> of a text. The two segments of a token are what \<open>SplitN2\<close> gives.
\<close>

definition flip_char :: "nat \<Rightarrow> char \<Rightarrow> char" where
  "flip_char b c = char_of (flip_bit b (of_char c :: nat))"

definition flip_at :: "nat \<Rightarrow> nat \<Rightarrow> string \<Rightarrow> string" where
  "flip_at i b s = s[i := flip_char b (s ! i)]"

definition payload_segment :: "string \<Rightarrow> string" where
  "payload_segment token = takeWhile (\<lambda>c. c \<noteq> CHR ''.'') token"

definition signature_segment :: "string \<Rightarrow> string" where
  "signature_segment token = tl (dropWhile (\<lambda>c. c \<noteq> CHR ''.'') token)"

text \<open>
  A concrete signer and token for the examples: the secret \<open>secret\<close>, the handler's
  time to live of 60 seconds, a token issued at 1700000000 seconds for the code \<open>abc\<close>
  and the click id \<open>abc\<close>, with eight zero bytes from the random source.
\<close>

definition example_signer :: TokenSigner where
  "example_signer = \<lparr>secret = bytes_of ''secret'', ttl = 60000000000\<rparr>"

definition example_payload :: "byte list" where
  "example_payload = [0, 3, 97, 98, 99, 101, 83, 241, 60, 0, 0, 0, 0, 0, 0, 0, 0]"

definition example_token :: string where
  "example_token = ''AANhYmNlU_E8AAAAAAAAAAA.iX_wchl4htSsffUduSX0-Q''"

section \<open>Properties of the click-event pipeline\<close>

subsection \<open>Status updates\<close>

lemma UpdateStatus_status_of:
  "status_of (snd (UpdateStatus True i s tbl)) j =
     (if j = i then map_option (\<lambda>_. s) (status_of tbl j) else status_of tbl j)"
proof -
  have "status_of (map (\<lambda>e. if ID e = i then e\<lparr>Status := s\<rparr> else e) tbl) j =
          (if j = i then map_option (\<lambda>_. s) (status_of tbl j) else status_of tbl j)"
    by (induction tbl) (auto simp add: status_of_def)
  then show ?thesis by (simp add: UpdateStatus_def)
qed

lemma sweep_status_of:
  "status_of (snd (UpdateExpiredPendingStatus up t tbl)) i = Some s' \<Longrightarrow>
   status_of tbl i = Some s \<Longrightarrow>
   s' = s \<or> (s = ClickStatusPending \<and> s' = ClickStatusFailed)"
proof (induction tbl)
  case Nil
  then show ?case by (simp add: status_of_def)
next
  case (Cons e tbl)
  then show ?case
    by (cases up; cases "ID e = i"; cases "expired_pending t e")
       (auto simp add: UpdateExpiredPendingStatus_def status_of_def expired_pending_def)
qed

text \<open>
  C1 (a defect of the code). The sweeper's update keeps the order of the statuses: it
  leaves every row as it is or takes it from PENDING to FAILED (\<open>sweep_status_of\<close>).
  \<open>UpdateStatus\<close> has no condition on the row's status: on an event the sweeper has
  already taken to FAILED, the confirmation's call \<open>UpdateStatus id SUCCESS\<close> writes
  SUCCESS over the terminal status.
\<close>

theorem UpdateStatus_overwrites_terminal:
  "status_of [\<lparr>ID = ''c1'', LinkCode = ''abc'', IP = ''10.0.0.1'', UserAgent = ''curl'',
               Status = ClickStatusFailed, Timestamp = 100\<rparr>] ''c1'' = Some ClickStatusFailed
   \<and> terminal ClickStatusFailed
   \<and> status_of (snd (UpdateStatus True ''c1'' ClickStatusSuccess
         [\<lparr>ID = ''c1'', LinkCode = ''abc'', IP = ''10.0.0.1'', UserAgent = ''curl'',
           Status = ClickStatusFailed, Timestamp = 100\<rparr>])) ''c1'' = Some ClickStatusSuccess
   \<and> ClickStatusSuccess \<noteq> ClickStatusFailed"
  by (simp add: status_of_def UpdateStatus_def terminal_def ClickStatusFailed_def
        ClickStatusSuccess_def)

subsection \<open>The persist step\<close>

lemma click_Create_duplicate:
  "has_id t (ID ev) \<Longrightarrow> click_Create up ev t = (Some (if up then ErrDuplicatedKey else ErrStoreUnreachable), t)"
  by (simp add: click_Create_def)

lemma click_Create_fresh:
  "\<not> has_id t (ID ev) \<Longrightarrow> click_Create True ev t = (None, t @ [ev])"
  by (simp add: click_Create_def)

lemma handle_msg_duplicate:
  assumes "dec m = Some ev" and "has_id (rows st) (ID ev)"
  shows "handle_msg dec store_up st m =
           st\<lparr>rows := rows st, inserts := Suc (inserts st), replies := replies st @ [Nak m]\<rparr>"
  using assms by (simp add: handle_msg_def click_Create_duplicate)

lemma handle_msg_fresh:
  assumes "dec m = Some ev" and "\<not> has_id (rows st) (ID ev)" and "store_up (inserts st)"
  shows "handle_msg dec store_up st m =
           st\<lparr>rows := rows st @ [ev], inserts := Suc (inserts st), replies := replies st @ [Ack m]\<rparr>"
  using assms by (simp add: handle_msg_def click_Create_fresh)

text \<open>
  C2, as the claim states it, fails: the event \<open>e1\<close> is in the table, its message is
  delivered again, the insert answers with the duplicate-key error and the consumer
  replies \<open>Nak\<close>, not \<open>Ack\<close>.
\<close>

theorem redelivery_is_nacked:
  "handle_msg
     (\<lambda>m. if m = ''e1-bytes''
          then Some \<lparr>ID = ''e1'', LinkCode = ''abc'', IP = ''10.0.0.1'', UserAgent = ''curl'',
                     Status = ''PENDING'', Timestamp = 100\<rparr>
          else None)
     (\<lambda>n. True)
     \<lparr>rows = [\<lparr>ID = ''e1'', LinkCode = ''abc'', IP = ''10.0.0.1'', UserAgent = ''curl'',
               Status = ''PENDING'', Timestamp = 100\<rparr>],
      replies = [], fetches = 1, inserts = 1\<rparr>
     ''e1-bytes''
   = \<lparr>rows = [\<lparr>ID = ''e1'', LinkCode = ''abc'', IP = ''10.0.0.1'', UserAgent = ''curl'',
               Status = ''PENDING'', Timestamp = 100\<rparr>],
      replies = [Nak ''e1-bytes''], fetches = 1, inserts = 2\<rparr>"
  by (simp add: handle_msg_def click_Create_def has_id_def)

text \<open>
  C2, amended: the persist step is a plain insert keyed by the event id. A message whose
  event id is already in the table makes the insert fail (duplicate key), the table
  stays as it is and the consumer replies \<open>Nak\<close>; a message whose event id is not yet
  in the table, with the store reachable, is inserted and the consumer replies \<open>Ack\<close>.
\<close>

theorem persist_step_replies:
  assumes "dec m = Some ev"
  shows "(has_id (rows st) (ID ev) \<longrightarrow>
            fst (click_Create (store_up (inserts st)) ev (rows st)) \<noteq> None
          \<and> rows (handle_msg dec store_up st m) = rows st
          \<and> replies (handle_msg dec store_up st m) = replies st @ [Nak m])
       \<and> (\<not> has_id (rows st) (ID ev) \<and> store_up (inserts st) \<longrightarrow>
            fst (click_Create (store_up (inserts st)) ev (rows st)) = None
          \<and> rows (handle_msg dec store_up st m) = rows st @ [ev]
          \<and> replies (handle_msg dec store_up st m) = replies st @ [Ack m])"
  using assms
  by (simp add: handle_msg_duplicate handle_msg_fresh click_Create_duplicate click_Create_fresh)

theorem persist_step_replies_witness:
  "replies (handle_msg (\<lambda>m. Some \<lparr>ID = m, LinkCode = ''abc'', IP = ''10.0.0.1'',
                UserAgent = ''curl'', Status = ''PENDING'', Timestamp = 100\<rparr>) (\<lambda>n. True)
      \<lparr>rows = [\<lparr>ID = ''e1'', LinkCode = ''abc'', IP = ''10.0.0.1'', UserAgent = ''curl'',
                Status = ''PENDING'', Timestamp = 100\<rparr>],
       replies = [], fetches = 1, inserts = 1\<rparr> ''e1'') = [Nak ''e1'']
   \<and> replies (handle_msg (\<lambda>m. Some \<lparr>ID = m, LinkCode = ''abc'', IP = ''10.0.0.1'',
                UserAgent = ''curl'', Status = ''PENDING'', Timestamp = 100\<rparr>) (\<lambda>n. True)
      \<lparr>rows = [\<lparr>ID = ''e1'', LinkCode = ''abc'', IP = ''10.0.0.1'', UserAgent = ''curl'',
                Status = ''PENDING'', Timestamp = 100\<rparr>],
       replies = [], fetches = 1, inserts = 1\<rparr> ''e2'') = [Ack ''e2'']"
  using persist_step_replies [of "\<lambda>m. Some \<lparr>ID = m, LinkCode = ''abc'', IP = ''10.0.0.1'',
                UserAgent = ''curl'', Status = ''PENDING'', Timestamp = 100\<rparr>" "''e1''" _
      "\<lparr>rows = [\<lparr>ID = ''e1'', LinkCode = ''abc'', IP = ''10.0.0.1'', UserAgent = ''curl'',
                Status = ''PENDING'', Timestamp = 100\<rparr>],
       replies = [], fetches = 1, inserts = 1\<rparr>" "\<lambda>n. True"]
    persist_step_replies [of "\<lambda>m. Some \<lparr>ID = m, LinkCode = ''abc'', IP = ''10.0.0.1'',
                UserAgent = ''curl'', Status = ''PENDING'', Timestamp = 100\<rparr>" "''e2''" _
      "\<lparr>rows = [\<lparr>ID = ''e1'', LinkCode = ''abc'', IP = ''10.0.0.1'', UserAgent = ''curl'',
                Status = ''PENDING'', Timestamp = 100\<rparr>],
       replies = [], fetches = 1, inserts = 1\<rparr>" "\<lambda>n. True"]
  by (simp add: has_id_def)

subsection \<open>The consumer's loop\<close>

lemma consume_never_returns: "consume dec store_up sub st = None"
proof (cases "consume dec store_up sub st")
  case None
  then show ?thesis .
next
  case (Some r)
  have False
    by (rule consume.raw_induct [where P = "\<lambda>_ _ _ _ _. False", OF _ Some]) blast
  then show ?thesis ..
qed

lemma fetches_handle_msg: "fetches (handle_msg dec store_up st m) = fetches st"
  by (simp add: handle_msg_def split: option.splits prod.splits)

lemma fetches_foldl: "fetches (foldl (handle_msg dec store_up) st ms) = fetches st"
  by (induction ms arbitrary: st) (simp_all add: fetches_handle_msg)

lemma fetches_cycle: "fetches (cycle dec store_up sub st) = Suc (fetches st)"
  by (simp add: cycle_def fetches_foldl split: prod.splits)

lemma fetches_turns: "fetches (turns dec store_up sub n st) = fetches st + n"
  by (induction n arbitrary: st) (simp_all add: fetches_cycle)

text \<open>
  C6, as the claim states it, fails: nothing the loop reads can stop it. Here the
  connection is closed, so every fetch answers with an error; the loop still never
  returns, and after five turns it has made five fetches.
\<close>

theorem closed_connection_does_not_stop_consume:
  "consume (\<lambda>m. None) (\<lambda>n. True) (\<lambda>k. ([], Some ErrConnectionClosed))
     \<lparr>rows = [], replies = [], fetches = 0, inserts = 0\<rparr> = None
   \<and> fetches (turns (\<lambda>m. None) (\<lambda>n. True) (\<lambda>k. ([], Some ErrConnectionClosed)) 5
        \<lparr>rows = [], replies = [], fetches = 0, inserts = 0\<rparr>) = 5"
  by (simp add: consume_never_returns fetches_turns)

text \<open>
  C6, amended: the consumer's loop has no stop mechanism. Whatever the decoder, the
  store and the subscription answer (fetch errors included), the loop never returns,
  and after any number \<open>n\<close> of turns it has made \<open>n\<close> more fetches: it ends only with
  the process.
\<close>

theorem consume_has_no_stop:
  "consume dec store_up sub st = None
   \<and> fetches (turns dec store_up sub n st) = fetches st + n"
  by (simp add: consume_never_returns fetches_turns)

section \<open>Properties of the link repository\<close>

lemmas prims = backend_def redis_Get_def redis_Set_def redis_Del_def bf_Add_def bf_Exists_def
  db_Create_def db_First_def db_Updates_def bloomAdd_def bloomExists_def

lemmas example_defs = example_link_def example_codec_def example_repo_def example_world_def

lemma GetByCode_phases:
  "GetByCode J r now code w =
     (case bloomExists r code w of
        (False, w1) \<Rightarrow> (Inl ErrLinkNotFound, w1)
      | (True, w1) \<Rightarrow>
          (case cache_phase J r now code w1 of
             (Some res, w2) \<Rightarrow> (res, w2)
           | (None, w2) \<Rightarrow> store_phase J r now code w2))"
  unfolding GetByCode_def cache_phase_def store_phase_def Let_def ..

lemma bloomExists_frame:
  "bloomExists r code w = (b, w1) \<Longrightarrow>
     links w1 = links w \<and> cache w1 = cache w \<and> bloom_added w1 = bloom_added w
   \<and> bloom_fp w1 = bloom_fp w \<and> answers w1 = answers w \<and> store_reads w1 = store_reads w"
  by (auto simp add: prims store_reads_def split: if_splits option.splits prod.splits)

lemma bloomExists_up:
  "all_answered w \<Longrightarrow> fst (bloomExists r code w) =
     (\<not> bloomSupported r \<or> \<not> has_redis r \<or> code \<in> set (bloom_added w)
      \<or> bloom_fp w (bloom_added w) code)"
  by (auto simp add: prims all_answered_def)

lemma cache_phase_frame:
  "cache_phase J r now code w = (x, w1) \<Longrightarrow>
     links w1 = links w \<and> cache w1 = cache w \<and> bloom_added w1 = bloom_added w
   \<and> bloom_fp w1 = bloom_fp w \<and> answers w1 = answers w \<and> store_reads w1 = store_reads w"
  by (auto simp add: cache_phase_def prims store_reads_def split: if_splits option.splits prod.splits)

lemma cache_phase_sentinel:
  assumes "all_answered w" "has_redis r" "cache w (cacheKeyPrefix @ code) = Some (cacheNullValue, e)" "now < e"
  shows "fst (cache_phase J r now code w) = Some (Inl ErrLinkNotFound)"
  using assms by (simp add: cache_phase_def prims all_answered_def)

lemma cache_phase_falls_through:
  assumes "\<not> positive_entry J now w code"
    and "\<not> (\<exists>e. cache w (cacheKeyPrefix @ code) = Some (cacheNullValue, e) \<and> now < e)"
  shows "fst (cache_phase J r now code w) = None"
  using assms
  by (auto simp add: cache_phase_def prims positive_entry_def split: option.splits prod.splits)

lemma store_phase_absent:
  assumes "all_answered w" "code \<notin> set (map Code (links w))"
  shows "fst (store_phase J r now code w) = Inl ErrLinkNotFound
       \<and> store_reads (snd (store_phase J r now code w)) = Suc (store_reads w)
       \<and> links (snd (store_phase J r now code w)) = links w
       \<and> bloom_added (snd (store_phase J r now code w)) = bloom_added w
       \<and> bloom_fp (snd (store_phase J r now code w)) = bloom_fp w
       \<and> answers (snd (store_phase J r now code w)) = answers w
       \<and> (has_redis r \<longrightarrow> cache (snd (store_phase J r now code w)) (cacheKeyPrefix @ code)
              = Some (cacheNullValue, now + cacheNullTTL)
            \<and> CacheSet (cacheKeyPrefix @ code) cacheNullValue cacheNullTTL
                \<in> set (calls (snd (store_phase J r now code w))))"
proof -
  have "find (\<lambda>l. Code l = code) (links w) = None"
    using assms(2) by (auto simp add: find_None_iff)
  then show ?thesis
    using assms(1) by (simp add: store_phase_def prims all_answered_def store_reads_def)
qed

lemma store_phase_frame:
  "store_phase J r now code w = (x, w1) \<Longrightarrow>
     links w1 = links w \<and> bloom_added w1 = bloom_added w
   \<and> bloom_fp w1 = bloom_fp w \<and> answers w1 = answers w"
  by (auto simp add: store_phase_def prims split: if_splits option.splits prod.splits sum.splits)





lemma all_answered_frame: "all_answered w \<Longrightarrow> answers w1 = answers w \<Longrightarrow> all_answered w1"
  by (simp add: all_answered_def)

lemma passes_frame:
  assumes "all_answered w" "answers w1 = answers w" "bloom_added w1 = bloom_added w" "bloom_fp w1 = bloom_fp w"
  shows "passes r code w1 = passes r code w"
  using assms all_answered_frame [OF assms(1,2)] by (simp add: passes_def bloomExists_up)

lemma passes_added: "c \<in> set (bloom_added w) \<Longrightarrow> passes r c w"
  by (simp add: passes_def prims split: if_splits option.splits prod.splits)

lemma passes_unsupported: "\<not> bloomSupported r \<or> \<not> has_redis r \<Longrightarrow> passes r c w"
  by (auto simp add: passes_def prims)

lemma GetByCode_frame:
  "links (snd (GetByCode J r now code w)) = links w
   \<and> bloom_added (snd (GetByCode J r now code w)) = bloom_added w
   \<and> bloom_fp (snd (GetByCode J r now code w)) = bloom_fp w
   \<and> answers (snd (GetByCode J r now code w)) = answers w"
proof -
  obtain b w1 where b: "bloomExists r code w = (b, w1)"
    by (cases "bloomExists r code w")
  note f1 = bloomExists_frame [OF b]
  obtain x w2 where c: "cache_phase J r now code w1 = (x, w2)"
    by (cases "cache_phase J r now code w1")
  note f2 = cache_phase_frame [OF c]
  obtain y w3 where d: "store_phase J r now code w2 = (y, w3)"
    by (cases "store_phase J r now code w2")
  note f3 = store_phase_frame [OF d]
  show ?thesis
    by (cases b; cases x) (simp_all add: GetByCode_phases b c d f1 f2 f3)
qed

lemma GetByCode_absent:
  assumes "all_answered w" and "has_redis r" and "code \<notin> set (map Code (links w))"
    and "passes r code w" and "\<not> positive_entry J now w code"
    and "GetByCode J r now code w = (res, w')"
  shows "res = Inl ErrLinkNotFound
       \<and> links w' = links w \<and> answers w' = answers w
       \<and> bloom_added w' = bloom_added w \<and> bloom_fp w' = bloom_fp w
       \<and> (if live_sentinel now w code
          then store_reads w' = store_reads w \<and> cache w' = cache w
          else store_reads w' = Suc (store_reads w)
             \<and> cache w' (cacheKeyPrefix @ code) = Some (cacheNullValue, now + cacheNullTTL)
             \<and> CacheSet (cacheKeyPrefix @ code) cacheNullValue cacheNullTTL \<in> set (calls w'))"
proof -
  obtain w1 where b: "bloomExists r code w = (True, w1)"
    using assms(4) by (cases "bloomExists r code w") (simp add: passes_def)
  note f1 = bloomExists_frame [OF b]
  have up1: "all_answered w1" using assms(1) f1 by (simp add: all_answered_def)
  obtain x w2 where c: "cache_phase J r now code w1 = (x, w2)"
    by (cases "cache_phase J r now code w1")
  note f2 = cache_phase_frame [OF c]
  have up2: "all_answered w2" using up1 f2 by (simp add: all_answered_def)
  have x: "x = fst (cache_phase J r now code w1)" by (simp add: c)
  show ?thesis
  proof (cases "live_sentinel now w code")
    case True
    then obtain e where "cache w1 (cacheKeyPrefix @ code) = Some (cacheNullValue, e)" "now < e"
      by (auto simp add: live_sentinel_def f1 split: option.splits)
    then have "x = Some (Inl ErrLinkNotFound)"
      unfolding x by (rule cache_phase_sentinel [OF up1 assms(2)])
    then have "GetByCode J r now code w = (Inl ErrLinkNotFound, w2)"
      by (simp add: GetByCode_phases b c)
    then have "res = Inl ErrLinkNotFound" "w' = w2" using assms(6) by simp_all
    then show ?thesis by (simp add: f1 f2 True)
  next
    case False
    have "\<not> positive_entry J now w1 code"
      using assms(5) by (simp add: positive_entry_def f1)
    moreover have "\<not> (\<exists>e. cache w1 (cacheKeyPrefix @ code) = Some (cacheNullValue, e) \<and> now < e)"
      using False by (auto simp add: live_sentinel_def f1)
    ultimately have "x = None"
      unfolding x by (rule cache_phase_falls_through)
    then have g: "GetByCode J r now code w = store_phase J r now code w2"
      by (simp add: GetByCode_phases b c)
    have r: "res = fst (store_phase J r now code w2)" and w: "w' = snd (store_phase J r now code w2)"
      using assms(6) unfolding g by simp_all
    have "code \<notin> set (map Code (links w2))"
      using assms(3) by (simp add: f1 f2)
    note sp = store_phase_absent [OF up2 this, of J r now]
    show ?thesis unfolding r w using sp assms(2) False by (simp add: f1 f2)
  qed
qed

lemma Update_frame:
  "bloom_added (snd (snd (Update r now l w))) = bloom_added w
   \<and> bloom_fp (snd (snd (Update r now l w))) = bloom_fp w
   \<and> answers (snd (snd (Update r now l w))) = answers w"
  by (simp add: Update_def prims split: if_splits option.splits prod.splits sum.splits)

lemma Code_with_defaults: "Code (with_defaults now l) = Code l"
  by (simp add: with_defaults_def)

lemma Create_frame:
  "set (bloom_added w) \<subseteq> set (bloom_added (snd (snd (Create r now l w))))"
  by (auto simp add: Create_def prims Let_def Code_with_defaults
        split: if_splits option.splits prod.splits sum.splits)

lemma Create_registers:
  assumes "Create r now l w = (None, l', w')" and "bloomSupported r" and "has_redis r"
    and "answers w (Suc (length (calls w)))"
  shows "Code l \<in> set (bloom_added w')"
  using assms
  by (auto simp add: Create_def prims Let_def Code_with_defaults
        split: if_splits option.splits prod.splits)

lemma Create_link:
  assumes "Create r now l w = (None, l', w')"
  shows "l' = with_defaults now l \<and> l' \<in> set (links w')"
  using assms
  by (auto simp add: Create_def prims Let_def split: if_splits option.splits prod.splits)

lemma serve_added: "c \<in> set (bloom_added w) \<Longrightarrow> c \<in> set (bloom_added (serve J r w q))"
proof (cases q)
  case (ReqCreate now l)
  assume "c \<in> set (bloom_added w)"
  then show ?thesis using Create_frame [of w r now l] ReqCreate by auto
next
  case (ReqGet now code)
  assume "c \<in> set (bloom_added w)"
  then show ?thesis using ReqGet by (simp add: GetByCode_frame)
next
  case (ReqUpdate now l)
  assume "c \<in> set (bloom_added w)"
  then show ?thesis using ReqUpdate by (simp add: Update_frame)
qed

lemma serve_all_added:
  "c \<in> set (bloom_added w) \<Longrightarrow> c \<in> set (bloom_added (serve_all J r reqs w))"
  unfolding serve_all_def
  by (induction reqs arbitrary: w) (simp_all add: serve_added)

lemma find_Code_map:
  assumes "\<And>x. Code (f x) = Code x"
  shows "find (\<lambda>x. Code x = c) (map (\<lambda>x. if Code x = c then f x else x) xs) =
           map_option f (find (\<lambda>x. Code x = c) xs)"
  using assms by (induction xs) simp_all

lemma Update_success:
  assumes "all_answered w" and "Update r now l w = (None, l', w')"
  shows "URL l' = URL l \<and> Code l' = Code l
       \<and> find (\<lambda>x. Code x = Code l) (links w') = Some l'
       \<and> answers w' = answers w \<and> bloom_added w' = bloom_added w \<and> bloom_fp w' = bloom_fp w
       \<and> (has_redis r \<longrightarrow> cache w' (cacheKeyPrefix @ Code l) = None)"
proof -
  let ?f = "\<lambda>x. x\<lparr>URL := URL l, Mode := Mode l, TimerSeconds := TimerSeconds l,
                    Disabled := Disabled l, ExpiresAt := ExpiresAt l, UpdatedAt := now\<rparr>"
  let ?rows = "map (\<lambda>x. if Code x = Code l then ?f x else x) (links w)"
  have fm: "find (\<lambda>x. Code x = Code l) ?rows = map_option ?f (find (\<lambda>x. Code x = Code l) (links w))"
    by (rule find_Code_map) simp
  have a0: "answers w (length (calls w))" and a1: "answers w (Suc (length (calls w)))"
    and a2: "answers w (Suc (Suc (length (calls w))))"
    using assms(1) by (simp_all add: all_answered_def)
  show ?thesis
  proof (cases "find (\<lambda>x. Code x = Code l) (links w)")
    case None
    then have "filter (\<lambda>x. Code x = Code l) (links w) = []"
      by (simp add: find_None_iff filter_empty_conv)
    then show ?thesis
      using assms(2) a0 by (simp add: Update_def db_Updates_def backend_def)
  next
    case (Some x)
    then have "filter (\<lambda>x. Code x = Code l) (links w) \<noteq> []"
      by (auto simp add: filter_empty_conv find_Some_iff)
    moreover have "Code x = Code l" using Some by (auto simp add: find_Some_iff)
    ultimately show ?thesis
      using assms(2) a0 a1 a2 fm Some
      by (auto simp add: Update_def db_Updates_def db_First_def redis_Del_def backend_def
            split: if_splits)
  qed
qed



text \<open>
  C5, as the claim states it, fails: \<open>bloomAdd\<close> ignores the outcome of \<open>BF.ADD\<close>.
  Here the insert is answered and the registration (the second backend call) is not:
  \<open>Create\<close> succeeds, the row is in the table, and the filter then reports definite
  absence of the code, so \<open>GetByCode\<close> answers \<open>ErrLinkNotFound\<close>.
\<close>

theorem lost_registration_gives_false_negative:
  "fst (Create example_repo 4 example_link flaky_world) = None
   \<and> links (snd (snd (Create example_repo 4 example_link flaky_world))) = [example_link]
   \<and> \<not> passes example_repo ''abc'' (snd (snd (Create example_repo 4 example_link flaky_world)))
   \<and> fst (GetByCode example_codec example_repo 5 ''abc''
        (snd (snd (Create example_repo 4 example_link flaky_world)))) = Inl ErrLinkNotFound"
  by (simp add: Create_def GetByCode_phases passes_def prims example_defs flaky_world_def
        with_defaults_def zeroTime_def Let_def)

text \<open>
  C5, amended: after a successful \<open>Create\<close> whose registration in the filter was
  answered (or with no filter in use: \<open>bloomSupported\<close> false or no Redis client), the
  filter lets the link's code through in every state reached from there by the
  repository's operations, whatever the backends answer later. Nothing is promised
  for a \<open>Create\<close> whose \<open>BF.ADD\<close> was not answered.
\<close>

theorem registered_code_passes_filter:
  assumes "Create r now l w = (None, l', w')"
    and "\<not> bloomSupported r \<or> \<not> has_redis r \<or> answers w (Suc (length (calls w)))"
  shows "passes r (Code l) (serve_all J r reqs w')"
proof (cases "bloomSupported r \<and> has_redis r")
  case True
  then have "Code l \<in> set (bloom_added w')"
    using assms Create_registers by blast
  then show ?thesis by (intro passes_added serve_all_added)
next
  case False
  then show ?thesis by (intro passes_unsupported) blast
qed

text \<open>C5 (amended) at a concrete input: the code \<open>new\<close> is created, then read and another link updated.\<close>

theorem registered_code_passes_filter_witness:
  "fst (Create example_repo 6 (example_link\<lparr>Code := ''new''\<rparr>) example_world) = None
   \<and> passes example_repo ''new''
       (serve_all example_codec example_repo [ReqGet 7 ''new'', ReqUpdate 8 example_link]
          (snd (snd (Create example_repo 6 (example_link\<lparr>Code := ''new''\<rparr>) example_world))))"
proof -
  let ?l = "example_link\<lparr>Code := ''new''\<rparr>"
  have h0: "fst (Create example_repo 6 ?l example_world) = None"
    by (simp add: Create_def prims example_defs Let_def with_defaults_def)
  have h1: "Create example_repo 6 ?l example_world =
      (None, fst (snd (Create example_repo 6 ?l example_world)),
       snd (snd (Create example_repo 6 ?l example_world)))"
    using h0 by (metis prod.collapse)
  have h2: "\<not> bloomSupported example_repo \<or> \<not> has_redis example_repo
            \<or> answers example_world (Suc (length (calls example_world)))"
    by (simp add: example_defs)
  have c: "Code ?l = ''new''" by (simp add: example_defs)
  show ?thesis
    using h0 registered_code_passes_filter [OF h1 h2,
        of example_codec "[ReqGet 7 ''new'', ReqUpdate 8 example_link]"]
    by (simp add: c)
qed

text \<open>
  C7. When the filter reports definite absence of a code (\<open>bloomExists\<close> returns
  false), \<open>GetByCode\<close> returns \<open>ErrLinkNotFound\<close> and the only backend call it makes
  is the filter query: no read of the cache, no write of the cache, no read of the
  store; the cache and the table are as before.
\<close>

theorem filter_short_circuit:
  assumes "fst (bloomExists r code w) = False"
  shows "GetByCode J r now code w = (Inl ErrLinkNotFound, w\<lparr>calls := calls w @ [BfExists code]\<rparr>)
       \<and> filter is_cache_read (calls (snd (GetByCode J r now code w))) = filter is_cache_read (calls w)
       \<and> filter is_cache_write (calls (snd (GetByCode J r now code w))) = filter is_cache_write (calls w)
       \<and> filter is_store_read (calls (snd (GetByCode J r now code w))) = filter is_store_read (calls w)
       \<and> cache (snd (GetByCode J r now code w)) = cache w
       \<and> links (snd (GetByCode J r now code w)) = links w"
proof -
  have "bloomExists r code w = (False, w\<lparr>calls := calls w @ [BfExists code]\<rparr>)"
    using assms
    by (auto simp add: bloomExists_def bf_Exists_def backend_def split: if_splits option.splits prod.splits)
  then have "GetByCode J r now code w = (Inl ErrLinkNotFound, w\<lparr>calls := calls w @ [BfExists code]\<rparr>)"
    by (simp add: GetByCode_phases)
  then show ?thesis by simp
qed

text \<open>C7 at a concrete input: the code \<open>nope\<close> was never added to the filter.\<close>

theorem filter_short_circuit_witness:
  "fst (bloomExists example_repo ''nope'' example_world) = False
   \<and> GetByCode example_codec example_repo 5 ''nope'' example_world =
       (Inl ErrLinkNotFound, example_world\<lparr>calls := [BfExists ''nope'']\<rparr>)"
proof -
  have h: "fst (bloomExists example_repo ''nope'' example_world) = False"
    by (simp add: prims example_defs)
  have c: "calls example_world = []" by (simp add: example_defs)
  show ?thesis
    using h filter_short_circuit [OF h, of example_codec 5] by (simp add: c)
qed

text \<open>
  C8, as the claim states it, fails. The code \<open>zzz\<close> has no row and the filter lets
  it through; two calls of \<open>GetByCode\<close> follow each other within the window. With a
  repository that has no Redis client (\<open>redis == nil\<close>, a case the source provides
  for) there is no sentinel to write, and with a cache whose \<open>SET\<close> is not answered
  (the source drops its error) none is written: both calls read the store, two reads
  in all.
\<close>

theorem misses_without_sentinel_read_store_twice:
  "''zzz'' \<notin> set (map Code (links example_world))
   \<and> passes plain_repo ''zzz'' example_world \<and> passes example_repo ''zzz'' lossy_world
   \<and> (2000::int) < 1000 + cacheNullTTL
   \<and> store_reads example_world = 0 \<and> store_reads lossy_world = 0
   \<and> fst (GetByCode example_codec plain_repo 1000 ''zzz'' example_world) = Inl ErrLinkNotFound
   \<and> fst (GetByCode example_codec plain_repo 2000 ''zzz''
        (snd (GetByCode example_codec plain_repo 1000 ''zzz'' example_world))) = Inl ErrLinkNotFound
   \<and> store_reads (snd (GetByCode example_codec plain_repo 2000 ''zzz''
        (snd (GetByCode example_codec plain_repo 1000 ''zzz'' example_world)))) = 2
   \<and> fst (GetByCode example_codec example_repo 1000 ''zzz'' lossy_world) = Inl ErrLinkNotFound
   \<and> cache (snd (GetByCode example_codec example_repo 1000 ''zzz'' lossy_world)) ''link:zzz'' = None
   \<and> fst (GetByCode example_codec example_repo 2000 ''zzz''
        (snd (GetByCode example_codec example_repo 1000 ''zzz'' lossy_world))) = Inl ErrLinkNotFound
   \<and> store_reads (snd (GetByCode example_codec example_repo 2000 ''zzz''
        (snd (GetByCode example_codec example_repo 1000 ''zzz'' lossy_world)))) = 2"
  by (simp add: GetByCode_phases cache_phase_def store_phase_def passes_def store_reads_def
        prims example_defs plain_repo_def lossy_world_def cacheNullTTL_def cacheKeyPrefix_def
        cacheNullValue_def)

text \<open>
  C8, amended: when a cache is configured and every backend call is answered, for a
  code that has no row in the table, that the filter lets through and for which the
  cache holds no positive entry (the repository writes none for a code without a row):
  two consecutive calls of \<open>GetByCode\<close>, the second less than \<open>cacheNullTTL\<close> after
  the first, both return \<open>ErrLinkNotFound\<close> and together read the store at most
  once. When the first call does not find a live sentinel (a miss), it reads the store
  once and writes the sentinel under the key with the time to live \<open>cacheNullTTL\<close>,
  and the second call does not read the store. Nothing is promised with no cache or
  for calls the backends do not answer.
\<close>

theorem negative_caching:
  assumes "all_answered w" and "has_redis r" and "code \<notin> set (map Code (links w))"
    and "passes r code w" and "\<not> positive_entry J t1 w code"
    and "t1 \<le> t2" and "t2 < t1 + cacheNullTTL"
    and "GetByCode J r t1 code w = (res1, w1)"
    and "GetByCode J r t2 code w1 = (res2, w2)"
  shows "res1 = Inl ErrLinkNotFound \<and> res2 = Inl ErrLinkNotFound
       \<and> store_reads w2 \<le> store_reads w + 1
       \<and> (\<not> live_sentinel t1 w code \<longrightarrow>
             store_reads w1 = store_reads w + 1
           \<and> cache w1 (cacheKeyPrefix @ code) = Some (cacheNullValue, t1 + cacheNullTTL)
           \<and> CacheSet (cacheKeyPrefix @ code) cacheNullValue cacheNullTTL \<in> set (calls w1)
           \<and> store_reads w2 = store_reads w1)"
proof -
  note a = GetByCode_absent [OF assms(1,2,3,4,5,8)]
  have up1: "all_answered w1" using a assms(1) by (simp add: all_answered_def)
  have rows1: "code \<notin> set (map Code (links w1))" using a assms(3) by simp
  have pass1: "passes r code w1" using passes_frame [OF assms(1), of w1 r code] a assms(4) by simp
  have np1: "\<not> positive_entry J t2 w1 code"
  proof (cases "live_sentinel t1 w code")
    case True
    then show ?thesis using a by (auto simp add: positive_entry_def live_sentinel_def split: option.splits)
  next
    case False
    then show ?thesis using a by (simp add: positive_entry_def)
  qed
  note b = GetByCode_absent [OF up1 assms(2) rows1 pass1 np1 assms(9)]
  show ?thesis
  proof (cases "live_sentinel t1 w code")
    case True
    then have "store_reads w1 = store_reads w" using a by simp
    moreover have "store_reads w2 \<le> Suc (store_reads w1)" using b by (simp split: if_splits)
    ultimately show ?thesis using a b True by simp
  next
    case False
    then have c: "cache w1 (cacheKeyPrefix @ code) = Some (cacheNullValue, t1 + cacheNullTTL)"
      and s: "store_reads w1 = Suc (store_reads w)" using a by simp_all
    have "live_sentinel t2 w1 code" using c assms(7) by (simp add: live_sentinel_def)
    then have "store_reads w2 = store_reads w1" using b by simp
    then show ?thesis using a b False s by simp
  qed
qed

text \<open>C8 (amended) at a concrete input: the code \<open>zzz\<close>, a false positive of the filter.\<close>

theorem negative_caching_witness:
  "fst (GetByCode example_codec example_repo 1000 ''zzz'' example_world) = Inl ErrLinkNotFound
   \<and> fst (GetByCode example_codec example_repo 2000 ''zzz''
        (snd (GetByCode example_codec example_repo 1000 ''zzz'' example_world))) = Inl ErrLinkNotFound
   \<and> store_reads (snd (GetByCode example_codec example_repo 2000 ''zzz''
        (snd (GetByCode example_codec example_repo 1000 ''zzz'' example_world)))) \<le> 1
   \<and> cache (snd (GetByCode example_codec example_repo 1000 ''zzz'' example_world)) ''link:zzz''
        = Some (''NULL'', 300000001000)"
proof -
  have h1: "all_answered example_world" by (simp add: all_answered_def example_defs)
  have h2: "has_redis example_repo" by (simp add: example_defs)
  have h3: "''zzz'' \<notin> set (map Code (links example_world))" by (simp add: example_defs)
  have h4: "passes example_repo ''zzz'' example_world"
    by (simp add: passes_def prims example_defs)
  have h5: "\<not> positive_entry example_codec 1000 example_world ''zzz''"
    by (simp add: positive_entry_def example_defs)
  have h6: "(1000::int) \<le> 2000" and h7: "(2000::int) < 1000 + cacheNullTTL"
    by (simp_all add: cacheNullTTL_def)
  have h8: "\<not> live_sentinel 1000 example_world ''zzz''"
    by (simp add: live_sentinel_def example_defs)
  have s: "store_reads example_world = 0" by (simp add: store_reads_def example_defs)
  show ?thesis
    using negative_caching [OF h1 h2 h3 h4 h5 h6 h7 surjective_pairing surjective_pairing] h8 s
    by (simp add: cacheKeyPrefix_def cacheNullValue_def cacheNullTTL_def)
qed

text \<open>
  C9, as the claim states it, fails. \<open>Update\<close> drops the error of \<open>DEL\<close>: here a
  read has put the row of \<open>abc\<close> in the cache, the update's \<open>DEL\<close> (the seventh
  backend call) is not answered, \<open>Update\<close> succeeds and the row has the new URL, yet
  the cache still holds the positive entry and the next \<open>GetByCode\<close> returns the old
  URL. And for an existing row whose code the filter does not hold (its registration
  was lost at \<open>Create\<close>), \<open>Update\<close> succeeds and the next \<open>GetByCode\<close> answers
  \<open>ErrLinkNotFound\<close>.
\<close>

theorem unanswered_delete_leaves_old_url:
  "URL moved_link = ''https://example.org/new''
   \<and> fst (Update example_repo 2000 moved_link
        (snd (GetByCode example_codec example_repo 1000 ''abc'' stale_world))) = None
   \<and> map URL (links (snd (snd (Update example_repo 2000 moved_link
        (snd (GetByCode example_codec example_repo 1000 ''abc'' stale_world))))))
       = [''https://example.org/new'']
   \<and> positive_entry example_codec 3000 (snd (snd (Update example_repo 2000 moved_link
        (snd (GetByCode example_codec example_repo 1000 ''abc'' stale_world))))) ''abc''
   \<and> map_sum id URL (fst (GetByCode example_codec example_repo 3000 ''abc''
        (snd (snd (Update example_repo 2000 moved_link
          (snd (GetByCode example_codec example_repo 1000 ''abc'' stale_world)))))))
       = Inr ''https://example.org/a''
   \<and> fst (Create example_repo 4 example_link flaky_world) = None
   \<and> fst (Update example_repo 2000 moved_link
        (snd (snd (Create example_repo 4 example_link flaky_world)))) = None
   \<and> fst (GetByCode example_codec example_repo 3000 ''abc''
        (snd (snd (Update example_repo 2000 moved_link
          (snd (snd (Create example_repo 4 example_link flaky_world))))))) = Inl ErrLinkNotFound"
  by (simp add: GetByCode_phases cache_phase_def store_phase_def Update_def Create_def
        positive_entry_def prims example_defs stale_world_def flaky_world_def moved_link_def
        with_defaults_def zeroTime_def cacheTTL_def cacheKeyPrefix_def cacheNullValue_def Let_def)

text \<open>
  C9, amended: when every backend call is answered (the \<open>DEL\<close> among them) and the
  filter lets the code through, after a successful \<open>Update\<close> of a link: when a cache
  is configured, the key of the code is deleted, so the cache holds no positive entry
  for it; and the next \<open>GetByCode\<close> of the code, at any time, returns the row read back
  by the update, whose \<open>URL\<close> is the new one. Nothing is promised for an update whose
  \<open>DEL\<close> is not answered, or for a code the filter does not hold.
\<close>

theorem update_invalidation:
  assumes "all_answered w" and "Update r now l w = (None, l', w')" and "passes r (Code l) w"
  shows "(has_redis r \<longrightarrow> cache w' (cacheKeyPrefix @ Code l) = None
                        \<and> \<not> positive_entry J now' w' (Code l))
       \<and> fst (GetByCode J r now' (Code l) w') = Inr l' \<and> URL l' = URL l"
proof -
  note u = Update_success [OF assms(1,2)]
  have up': "all_answered w'" using assms(1) u by (simp add: all_answered_def)
  have "passes r (Code l) w'"
    using passes_frame [OF assms(1), of w' r "Code l"] u assms(3) by simp
  then obtain w1 where b: "bloomExists r (Code l) w' = (True, w1)"
    by (cases "bloomExists r (Code l) w'") (simp add: passes_def)
  note f1 = bloomExists_frame [OF b]
  obtain x w2 where c: "cache_phase J r now' (Code l) w1 = (x, w2)"
    by (cases "cache_phase J r now' (Code l) w1")
  note f2 = cache_phase_frame [OF c]
  have up2: "all_answered w2" using up' f1 f2 by (simp add: all_answered_def)
  have "x = None"
  proof (cases "has_redis r")
    case True
    then have "cache w1 (cacheKeyPrefix @ Code l) = None" using u f1 by simp
    then have "fst (cache_phase J r now' (Code l) w1) = None"
      by (intro cache_phase_falls_through) (simp_all add: positive_entry_def)
    then show ?thesis using c by simp
  next
    case False
    then show ?thesis using c by (simp add: cache_phase_def)
  qed
  then have g: "GetByCode J r now' (Code l) w' = store_phase J r now' (Code l) w2"
    by (simp add: GetByCode_phases b c)
  have "find (\<lambda>x. Code x = Code l) (links w2) = Some l'" using u f1 f2 by simp
  moreover have "answers w2 (length (calls w2))" using up2 by (simp add: all_answered_def)
  ultimately have "fst (store_phase J r now' (Code l) w2) = Inr l'"
    by (simp add: store_phase_def db_First_def backend_def)
  then show ?thesis using g u by (simp add: positive_entry_def)
qed

text \<open>
  C9 (amended) at a concrete input: a read has put the row of \<open>abc\<close> in the cache,
  then the link gets a new URL; the entry is gone and the next read returns the new URL.
\<close>

theorem update_invalidation_witness:
  "positive_entry example_codec 2000
       (snd (GetByCode example_codec example_repo 1000 ''abc'' example_world)) ''abc''
   \<and> fst (Update example_repo 2000 moved_link
        (snd (GetByCode example_codec example_repo 1000 ''abc'' example_world))) = None
   \<and> cache (snd (snd (Update example_repo 2000 moved_link
        (snd (GetByCode example_codec example_repo 1000 ''abc'' example_world))))) ''link:abc'' = None
   \<and> \<not> positive_entry example_codec 3000 (snd (snd (Update example_repo 2000 moved_link
        (snd (GetByCode example_codec example_repo 1000 ''abc'' example_world))))) ''abc''
   \<and> map_sum id URL (fst (GetByCode example_codec example_repo 3000 ''abc''
        (snd (snd (Update example_repo 2000 moved_link
          (snd (GetByCode example_codec example_repo 1000 ''abc'' example_world)))))))
       = Inr ''https://example.org/new''"
proof -
  let ?w = "snd (GetByCode example_codec example_repo 1000 ''abc'' example_world)"
  have w: "?w = example_world\<lparr>calls := [BfExists ''abc'', CacheGet ''link:abc'', DbSelect ''abc'',
                  CacheSet ''link:abc'' ''abc https://example.org/a'' cacheTTL],
                cache := (\<lambda>k. None)(''link:abc'' \<mapsto> (''abc https://example.org/a'', 1000 + cacheTTL))\<rparr>"
    by (simp add: GetByCode_phases cache_phase_def store_phase_def prims example_defs
          cacheKeyPrefix_def)
  have h0: "positive_entry example_codec 2000 ?w ''abc''"
    unfolding w
    by (simp add: positive_entry_def example_defs cacheKeyPrefix_def cacheNullValue_def cacheTTL_def)
  have h1: "all_answered ?w" unfolding w by (simp add: all_answered_def example_defs)
  have h4: "fst (Update example_repo 2000 moved_link ?w) = None"
    unfolding w by (simp add: Update_def prims example_defs moved_link_def)
  have h2: "Update example_repo 2000 moved_link ?w =
      (None, fst (snd (Update example_repo 2000 moved_link ?w)),
       snd (snd (Update example_repo 2000 moved_link ?w)))"
    using h4 by (metis prod.collapse)
  have h3: "passes example_repo (Code moved_link) ?w"
    unfolding w by (simp add: passes_def prims example_defs moved_link_def)
  have c: "Code moved_link = ''abc''" "has_redis example_repo"
      "URL moved_link = ''https://example.org/new''"
    by (simp_all add: example_defs moved_link_def)
  show ?thesis
    using h0 h4 update_invalidation [OF h1 h2 h3, of example_codec 3000]
    by (simp add: c cacheKeyPrefix_def)
qed



section \<open>Properties of the redirect token\<close>

text \<open>
  The base64 text: the decoder's table inverts the encoder's, decoding an encoding gives
  the bytes back, and an encoding holds no dot, carriage return or line feed.
\<close>

lemma length_encodeURL: "length encodeURL = 64"
  by (simp add: encodeURL_def)

lemma distinct_encodeURL: "distinct encodeURL"
  by (simp add: encodeURL_def)

lemma decodeMap_encode: "v < 64 \<Longrightarrow> decodeMap (encodeURL ! v) = Some v"
  unfolding decodeMap_def
  using map_of_zip_nth [of encodeURL "[0..<64]" v]
  by (simp add: length_encodeURL distinct_encodeURL)

lemma decodeMap_Some: "decodeMap c = Some v \<Longrightarrow> v < 64 \<and> encodeURL ! v = c"
proof -
  assume "decodeMap c = Some v"
  then have "(c, v) \<in> set (zip encodeURL [0..<64])"
    unfolding decodeMap_def by (rule map_of_SomeD)
  then obtain i where "i < 64" "encodeURL ! i = c" "[0..<64] ! i = v"
    by (auto simp add: in_set_zip length_encodeURL)
  then show ?thesis by simp
qed

lemma decodeMap_special:
  "decodeMap (CHR 0x0A) = None" "decodeMap (CHR 0x0D) = None" "decodeMap CHR ''.'' = None"
  by (simp_all add: decodeMap_def encodeURL_def)

lemma recompose4:
  "(val::nat) div 262144 mod 64 * 262144 + val div 4096 mod 64 * 4096 + val div 64 mod 64 * 64 + val mod 64
     = val mod 16777216"
proof -
  have a: "val mod 16777216 = val div 262144 mod 64 * 262144 + val mod 262144"
    using mod_mult2_eq [of val 262144 64] by simp
  have b: "val mod 262144 = val div 4096 mod 64 * 4096 + val mod 4096"
    using mod_mult2_eq [of val 4096 64] by simp
  have c: "val mod 4096 = val div 64 mod 64 * 64 + val mod 64"
    using mod_mult2_eq [of val 64 64] by simp
  show ?thesis using a b c by simp
qed

lemma unat_byte: "unat (b::byte) < 256"
  using unsigned_less [of b, where ?'a = nat] by simp

lemma unat_of_nat_byte: "unat (of_nat x :: byte) = x mod 256"
  by (simp add: unat_of_nat)

lemma of_nat_byte_eq: "x mod 256 = unat (c::byte) \<Longrightarrow> (of_nat x :: byte) = c"
proof -
  assume "x mod 256 = unat c"
  then have "take_bit LENGTH(8) x = take_bit LENGTH(8) (unat c)"
    using unat_byte [of c] by (simp add: take_bit_eq_mod)
  then have "(of_nat x :: byte) = of_nat (unat c)"
    by (simp only: word_of_nat_eq_iff)
  then show ?thesis by simp
qed

lemma val3_bound: "unat (a::byte) * 65536 + unat (b::byte) * 256 + unat (c::byte) < 16777216"
  using unat_byte [of a] unat_byte [of b] unat_byte [of c] by simp

lemma byte_hi: "(of_nat ((unat (a::byte) * 65536 + unat (b::byte) * 256 + unat (c::byte)) div 65536) :: byte) = a"
proof -
  have "unat b * 256 + unat c < 65536"
    using unat_byte [of b] unat_byte [of c] by simp
  then have "(unat a * 65536 + unat b * 256 + unat c) div 65536 = unat a" by simp
  then show ?thesis by simp
qed

lemma byte_mid: "(of_nat ((unat (a::byte) * 65536 + unat (b::byte) * 256 + unat (c::byte)) div 256) :: byte) = b"
proof -
  have "unat c < 256" by (rule unat_byte)
  then have "(unat a * 65536 + unat b * 256 + unat c) div 256 = unat a * 256 + unat b" by simp
  then show ?thesis using unat_byte [of b] by (intro of_nat_byte_eq) simp
qed

lemma byte_lo: "(of_nat (unat (a::byte) * 65536 + unat (b::byte) * 256 + unat (c::byte)) :: byte) = c"
  using unat_byte [of c] by (intro of_nat_byte_eq) (simp add: mod_add_left_eq [symmetric])

lemma byte_hi2: "(of_nat ((unat (a::byte) * 65536 + unat (b::byte) * 256) div 65536) :: byte) = a"
  using byte_hi [of a b 0] by simp

lemma byte_mid2: "(of_nat ((unat (a::byte) * 65536 + unat (b::byte) * 256) div 256) :: byte) = b"
  using byte_mid [of a b 0] by simp

lemma byte_hi1: "(of_nat ((unat (a::byte) * 65536) div 65536) :: byte) = a"
  by simp

lemma sextets_lt: "v \<in> set (sextets bs) \<Longrightarrow> v < 64"
  by (induction bs arbitrary: v rule: sextets.induct) (auto simp add: Let_def)

lemma quantum3:
  fixes a b c :: byte
  shows "(unat a * 65536 + unat b * 256 + unat c) div 262144 mod 64 * 262144
       + (unat a * 65536 + unat b * 256 + unat c) div 4096 mod 64 * 4096
       + (unat a * 65536 + unat b * 256 + unat c) div 64 mod 64 * 64
       + (unat a * 65536 + unat b * 256 + unat c) mod 64
       = unat a * 65536 + unat b * 256 + unat c"
proof -
  have "(unat a * 65536 + unat b * 256 + unat c) mod 16777216 = unat a * 65536 + unat b * 256 + unat c"
    using val3_bound [of a b c] by (rule mod_less)
  then show ?thesis by (simp only: recompose4)
qed

lemma quantum2:
  fixes a b :: byte
  shows "(unat a * 65536 + unat b * 256) div 262144 mod 64 * 262144
       + (unat a * 65536 + unat b * 256) div 4096 mod 64 * 4096
       + (unat a * 65536 + unat b * 256) div 64 mod 64 * 64
       = unat a * 65536 + unat b * 256"
proof -
  let ?val = "unat a * 65536 + unat b * 256"
  have z: "?val mod 64 = 0" by simp
  have "?val < 16777216" using unat_byte [of a] unat_byte [of b] by simp
  then have m: "?val mod 16777216 = ?val" by (rule mod_less)
  have "?val div 262144 mod 64 * 262144 + ?val div 4096 mod 64 * 4096 + ?val div 64 mod 64 * 64
          + ?val mod 64 = ?val mod 16777216"
    by (rule recompose4)
  then show ?thesis unfolding z m by (simp only: add_0_right)
qed

lemma quantum1:
  fixes a :: byte
  shows "(unat a * 65536) div 262144 mod 64 * 262144 + (unat a * 65536) div 4096 mod 64 * 4096
       = unat a * 65536"
proof -
  let ?val = "unat a * 65536"
  have z: "?val mod 64 = 0" and y: "?val div 64 mod 64 = 0" by simp_all
  have "?val < 16777216" using unat_byte [of a] by simp
  then have m: "?val mod 16777216 = ?val" by (rule mod_less)
  have "?val div 262144 mod 64 * 262144 + ?val div 4096 mod 64 * 4096 + ?val div 64 mod 64 * 64
          + ?val mod 64 = ?val mod 16777216"
    by (rule recompose4)
  then show ?thesis unfolding z y m by (simp only: add_0_right mult_0)
qed

lemma unsextets_sextets: "unsextets (sextets bs) = Some bs"
proof (induction bs rule: sextets.induct)
  case (1 b0 b1 b2 bs)
  then show ?case
    by (simp only: sextets.simps unsextets.simps Let_def quantum3 byte_hi byte_mid byte_lo
          option.map)
next
  case (2 b0 b1)
  show ?case
    by (simp only: sextets.simps unsextets.simps Let_def quantum2 byte_hi2 byte_mid2)
next
  case (3 b0)
  show ?case
    by (simp only: sextets.simps unsextets.simps Let_def quantum1 byte_hi1)
next
  case 4
  then show ?case by simp
qed

lemma encode_chars:
  assumes "c \<in> set (EncodeToString bs)"
  shows "decodeMap c \<noteq> None"
proof -
  obtain v where "v \<in> set (sextets bs)" "c = encodeURL ! v"
    using assms by (auto simp add: EncodeToString_def)
  then show ?thesis using decodeMap_encode [of v] sextets_lt [of v bs] by simp
qed

lemma no_dot_in_encoding: "CHR ''.'' \<notin> set (EncodeToString bs)"
  using encode_chars [of "CHR ''.''" bs] decodeMap_special by blast

lemma filter_encoding:
  "filter (\<lambda>c. c \<noteq> CHR 0x0A \<and> c \<noteq> CHR 0x0D) (EncodeToString bs) = EncodeToString bs"
proof -
  have "\<forall>c \<in> set (EncodeToString bs). c \<noteq> CHR 0x0A \<and> c \<noteq> CHR 0x0D"
    using encode_chars [of "CHR 0x0A" bs] encode_chars [of "CHR 0x0D" bs] decodeMap_special
    by blast
  then show ?thesis by (simp add: filter_id_conv)
qed

lemma those_map_Some: "those (map Some xs) = Some xs"
  by (induction xs) simp_all

lemma those_decodeMap:
  assumes "\<forall>v \<in> set vs. v < 64"
  shows "those (map decodeMap (map (\<lambda>v. encodeURL ! v) vs)) = Some vs"
  using assms by (induction vs) (simp_all add: decodeMap_encode)

lemma those_None: "None \<in> set xs \<Longrightarrow> those xs = None"
  by (induction xs) (auto split: option.splits)

lemma DecodeString_EncodeToString: "DecodeString (EncodeToString bs) = Some bs"
proof -
  have "those (map decodeMap (EncodeToString bs)) = Some (sextets bs)"
    unfolding EncodeToString_def using sextets_lt by (intro those_decodeMap) blast
  then show ?thesis
    by (simp add: DecodeString_def filter_encoding unsextets_sextets)
qed

lemma DecodeString_alphabet:
  assumes "\<forall>v\<in>set vs. v < 64"
  shows "DecodeString (map (\<lambda>v. encodeURL ! v) vs) = unsextets vs"
proof -
  have "\<forall>c \<in> set (map (\<lambda>v. encodeURL ! v) vs). c \<noteq> CHR 0x0A \<and> c \<noteq> CHR 0x0D"
    using assms decodeMap_encode decodeMap_special by fastforce
  then have "filter (\<lambda>c. c \<noteq> CHR 0x0A \<and> c \<noteq> CHR 0x0D) (map (\<lambda>v. encodeURL ! v) vs)
               = map (\<lambda>v. encodeURL ! v) vs"
    by (simp only: filter_id_conv)
  then show ?thesis
    unfolding DecodeString_def by (simp only: those_decodeMap [OF assms] option.case)
qed

lemma DecodeString_dot: "CHR ''.'' \<in> set q \<Longrightarrow> DecodeString q = None"
proof -
  assume "CHR ''.'' \<in> set q"
  then have "CHR ''.'' \<in> set (filter (\<lambda>c. c \<noteq> CHR 0x0A \<and> c \<noteq> CHR 0x0D) q)" by simp
  then have "None \<in> set (map decodeMap (filter (\<lambda>c. c \<noteq> CHR 0x0A \<and> c \<noteq> CHR 0x0D) q))"
    using decodeMap_special(3) by force
  then have "those (map decodeMap (filter (\<lambda>c. c \<noteq> CHR 0x0A \<and> c \<noteq> CHR 0x0D) q)) = None"
    by (rule those_None)
  then show ?thesis by (simp add: DecodeString_def)
qed

lemma bytes_of_val:
  fixes val :: nat
  assumes "val < 16777216"
  shows "unat (of_nat (val div 65536) :: byte) * 65536 + unat (of_nat (val div 256) :: byte) * 256
       + unat (of_nat val :: byte) = val"
proof -
  have a: "val mod 16777216 = val div 65536 mod 256 * 65536 + val mod 65536"
    using mod_mult2_eq [of val 65536 256] by simp
  have b: "val mod 65536 = val div 256 mod 256 * 256 + val mod 256"
    using mod_mult2_eq [of val 256 256] by simp
  have "val mod 16777216 = val" using assms by simp
  then show ?thesis using a b by (simp add: unat_of_nat_byte)
qed

lemma digit64: "(b::nat) < 64 \<Longrightarrow> (a * 64 + b) div 64 = a \<and> (a * 64 + b) mod 64 = b"
  by simp

lemma sextets_of_val:
  fixes v0 v1 v2 v3 :: nat
  assumes "v0 < 64" "v1 < 64" "v2 < 64" "v3 < 64"
  shows "v0 * 262144 + v1 * 4096 + v2 * 64 + v3 < 16777216"
    and "(v0 * 262144 + v1 * 4096 + v2 * 64 + v3) div 262144 mod 64 = v0"
    and "(v0 * 262144 + v1 * 4096 + v2 * 64 + v3) div 4096 mod 64 = v1"
    and "(v0 * 262144 + v1 * 4096 + v2 * 64 + v3) div 64 mod 64 = v2"
    and "(v0 * 262144 + v1 * 4096 + v2 * 64 + v3) mod 64 = v3"
proof -
  let ?val = "v0 * 262144 + v1 * 4096 + v2 * 64 + v3"
  let ?x = "(v0 * 64 + v1) * 64 + v2"
  let ?y = "v0 * 64 + v1"
  have v: "?val = ?x * 64 + v3" by simp
  have d1: "?val div 64 = ?x" and m1: "?val mod 64 = v3"
    unfolding v using digit64 [OF assms(4), of ?x] by simp_all
  have d2: "?x div 64 = ?y" and m2: "?x mod 64 = v2"
    using digit64 [OF assms(3), of ?y] by simp_all
  have d3: "?y div 64 = v0" and m3: "?y mod 64 = v1"
    using digit64 [OF assms(2), of v0] by simp_all
  have "?val div 4096 = ?val div 64 div 64"
    using div_mult2_eq [of ?val 64 64] by simp
  then have e2: "?val div 4096 = ?y" by (simp only: d1 d2)
  have "?val div 262144 = ?val div 4096 div 64"
    using div_mult2_eq [of ?val 4096 64] by simp
  then have e3: "?val div 262144 = v0" by (simp only: e2 d3)
  show "?val < 16777216" using assms by simp
  show "?val div 262144 mod 64 = v0" using assms(1) by (simp only: e3) simp
  show "?val div 4096 mod 64 = v1" by (simp only: e2 m3)
  show "?val div 64 mod 64 = v2" by (simp only: d1 m2)
  show "?val mod 64 = v3" by (rule m1)
qed

lemma sextets_unsextets:
  assumes "\<forall>v\<in>set vs. v < 64" and "unsextets vs = Some bs"
  shows "sextets bs = canon vs"
  using assms
proof (induction vs arbitrary: bs rule: unsextets.induct)
  case (1 v0 v1 v2 v3 vs)
  let ?val = "v0 * 262144 + v1 * 4096 + v2 * 64 + v3"
  from "1.prems"(2) obtain bs' where b: "unsextets vs = Some bs'"
    and bs: "bs = of_nat (?val div 65536) # of_nat (?val div 256) # of_nat ?val # bs'"
    by (auto simp add: Let_def)
  have lt: "v0 < 64" "v1 < 64" "v2 < 64" "v3 < 64" and rest: "\<forall>v\<in>set vs. v < 64"
    using "1.prems"(1) by simp_all
  note sv = sextets_of_val [OF lt]
  have val': "unat (of_nat (?val div 65536) :: byte) * 65536
            + unat (of_nat (?val div 256) :: byte) * 256 + unat (of_nat ?val :: byte) = ?val"
    by (rule bytes_of_val [OF sv(1)])
  have ih: "sextets bs' = canon vs"
    using "1.IH" [OF refl rest b] .
  show ?case
    unfolding bs by (simp only: sextets.simps Let_def val' sv ih canon.simps)
next
  case (2 v0 v1 v2)
  let ?val = "v0 * 262144 + v1 * 4096 + v2 * 64"
  let ?val' = "v0 * 262144 + v1 * 4096 + (v2 div 4 * 4) * 64 + 0"
  from "2.prems"(2) have bs: "bs = [of_nat (?val div 65536), of_nat (?val div 256)]"
    by (simp add: Let_def)
  have "v2 < 64" using "2.prems"(1) by simp
  then have "v2 div 4 * 4 < 64" by presburger
  then have lt: "v0 < 64" "v1 < 64" "v2 div 4 * 4 < 64" "(0::nat) < 64"
    using "2.prems"(1) by simp_all
  note sv = sextets_of_val [OF lt]
  have bv: "unat (of_nat (?val' div 65536) :: byte) * 65536
            + unat (of_nat (?val' div 256) :: byte) * 256 + unat (of_nat ?val' :: byte) = ?val'"
    by (rule bytes_of_val [OF sv(1)])
  have s1: "?val = (v0 * 1024 + v1 * 16) * 256 + v2 * 64" by simp
  have s2: "?val' = (v0 * 1024 + v1 * 16 + v2 div 4) * 256" by simp
  have "v2 * 64 div 256 = (64 * v2) div (64 * 4)" by (simp add: mult.commute)
  also have "\<dots> = v2 div 4" by (rule div_mult_mult1) simp
  finally have s3: "v2 * 64 div 256 = v2 div 4" .
  have z: "unat (of_nat ?val' :: byte) = 0"
    unfolding unat_of_nat_byte s2 by simp
  have e2: "?val div 256 = ?val' div 256"
    unfolding s1 s2 using s3 by simp
  have "?val div 65536 = ?val div 256 div 256" "?val' div 65536 = ?val' div 256 div 256"
    using div_mult2_eq [of ?val 256 256] div_mult2_eq [of ?val' 256 256] by simp_all
  then have e1: "?val div 65536 = ?val' div 65536"
    by (simp only: e2)
  have f: "unat (of_nat (?val div 65536) :: byte) * 65536 + unat (of_nat (?val div 256) :: byte) * 256 = ?val'"
    using bv unfolding z e1 e2 by (simp only: add_0_right)
  show ?case
    unfolding bs by (simp only: sextets.simps Let_def f sv canon.simps)
next
  case (3 v0 v1)
  let ?val = "v0 * 262144 + v1 * 4096"
  let ?val' = "v0 * 262144 + (v1 div 16 * 16) * 4096 + 0 * 64 + 0"
  from "3.prems"(2) have bs: "bs = [of_nat (?val div 65536)]"
    by (simp add: Let_def)
  have "v1 < 64" using "3.prems"(1) by simp
  then have "v1 div 16 * 16 < 64" by presburger
  then have lt: "v0 < 64" "v1 div 16 * 16 < 64" "(0::nat) < 64"
    using "3.prems"(1) by simp_all
  note sv = sextets_of_val [OF lt(1,2,3,3)]
  have bv: "unat (of_nat (?val' div 65536) :: byte) * 65536
            + unat (of_nat (?val' div 256) :: byte) * 256 + unat (of_nat ?val' :: byte) = ?val'"
    by (rule bytes_of_val [OF sv(1)])
  have s1: "?val = (v0 * 4) * 65536 + v1 * 4096" by simp
  have s2: "?val' = (v0 * 4 + v1 div 16) * 65536" by simp
  have "v1 * 4096 div 65536 = (4096 * v1) div (4096 * 16)" by (simp add: mult.commute)
  also have "\<dots> = v1 div 16" by (rule div_mult_mult1) simp
  finally have s3: "v1 * 4096 div 65536 = v1 div 16" .
  have e1: "?val div 65536 = ?val' div 65536"
    unfolding s1 s2 using s3 by simp
  have "?val' div 256 = (v0 * 4 + v1 div 16) * 256" unfolding s2 by simp
  then have y: "unat (of_nat (?val' div 256) :: byte) = 0"
    by (simp only: unat_of_nat_byte mod_mult_self2_is_0)
  have z: "unat (of_nat ?val' :: byte) = 0"
    unfolding unat_of_nat_byte s2 by simp
  have f: "unat (of_nat (?val div 65536) :: byte) * 65536 = ?val'"
    using bv unfolding z y e1 by (simp only: add_0_right mult_0)
  show ?case
    unfolding bs by (simp only: sextets.simps Let_def f sv canon.simps)
next
  case (4 v0)
  then show ?case by simp
next
  case 5
  then show ?case by simp
qed

lemma length_unsextets: "unsextets vs = Some bs \<Longrightarrow> length vs = (length bs * 8 + 5) div 6"
proof (induction vs arbitrary: bs rule: unsextets.induct)
  case (1 v0 v1 v2 v3 vs)
  then obtain bs' where "unsextets vs = Some bs'" "length bs = length bs' + 3"
    by (auto simp add: Let_def)
  then show ?case using "1.IH" [OF refl] by simp
qed (auto simp add: Let_def)

lemma length_EncodeToString: "length (EncodeToString bs) = (length bs * 8 + 5) div 6"
  using length_unsextets [OF unsextets_sextets, of bs] by (simp add: EncodeToString_def)

lemma length_canon: "length (canon vs) = length vs"
  by (induction vs rule: canon.induct) simp_all

lemma canon_nth:
  "i < length vs \<Longrightarrow> Suc i < length vs \<or> length vs mod 4 = 0 \<Longrightarrow> canon vs ! i = vs ! i"
proof (induction vs arbitrary: i rule: canon.induct)
  case (1 v0 v1 v2 v3 vs)
  show ?case
  proof (cases "i < 4")
    case True
    then consider "i = 0" | "i = 1" | "i = 2" | "i = 3" by linarith
    then show ?thesis by cases simp_all
  next
    case False
    then obtain j where j: "i = j + 4" using le_Suc_ex [of 4 i] by (auto simp add: add.commute)
    have "j < length vs" using "1.prems"(1) j by simp
    moreover have "Suc j < length vs \<or> length vs mod 4 = 0"
      using "1.prems"(2) j by auto
    ultimately have "canon vs ! j = vs ! j" by (rule "1.IH")
    then show ?thesis by (simp add: j)
  qed
next
  case (2 v0 v1 v2)
  then have "i = 0 \<or> i = 1" by auto
  then show ?case by auto
next
  case (3 v0 v1)
  then have "i = 0" by auto
  then show ?case by simp
qed simp_all

lemma filter_update_dropped:
  assumes "\<forall>x\<in>set xs. P x" and "\<not> P c" and "i < length xs"
  shows "filter P (xs[i := c]) = take i xs @ drop (Suc i) xs"
proof -
  have "xs[i := c] = take i xs @ c # drop (Suc i) xs"
    using assms(3) by (rule upd_conv_take_nth_drop)
  moreover have "filter P (take i xs) = take i xs" "filter P (drop (Suc i) xs) = drop (Suc i) xs"
    using assms(1) by (auto simp add: filter_id_conv dest: in_set_takeD in_set_dropD)
  ultimately show ?thesis using assms(2) by simp
qed

lemma tamper_char:
  assumes i: "i < length (EncodeToString bs)"
    and c: "c \<noteq> EncodeToString bs ! i"
    and pos: "Suc i < length (EncodeToString bs) \<or> length (EncodeToString bs) mod 4 = 0"
  shows "DecodeString ((EncodeToString bs)[i := c]) \<noteq> Some bs"
proof
  let ?vs = "sextets bs"
  let ?enc = "\<lambda>v. encodeURL ! v"
  let ?x = "EncodeToString bs"
  let ?nl = "\<lambda>c. c \<noteq> CHR 0x0A \<and> c \<noteq> CHR 0x0D"
  assume d: "DecodeString (?x[i := c]) = Some bs"
  have x: "?x = map ?enc ?vs" by (simp add: EncodeToString_def)
  have n: "length ?x = length ?vs" by (simp add: x)
  have lt: "\<forall>v\<in>set ?vs. v < 64" using sextets_lt by blast
  have xnl: "\<forall>a\<in>set ?x. ?nl a"
    using encode_chars [of "CHR 0x0A" bs] encode_chars [of "CHR 0x0D" bs] decodeMap_special
    by blast
  show False
  proof (cases "?nl c")
    case False
    have "filter ?nl (?x[i := c]) = take i ?x @ drop (Suc i) ?x"
      using xnl False i by (rule filter_update_dropped)
    also have "\<dots> = map ?enc (take i ?vs @ drop (Suc i) ?vs)"
      by (simp add: x take_map drop_map)
    finally have f: "filter ?nl (?x[i := c]) = map ?enc (take i ?vs @ drop (Suc i) ?vs)" .
    have lt': "\<forall>v\<in>set (take i ?vs @ drop (Suc i) ?vs). v < 64"
      using lt by (auto dest: in_set_takeD in_set_dropD)
    have "DecodeString (?x[i := c]) = unsextets (take i ?vs @ drop (Suc i) ?vs)"
      unfolding DecodeString_def f by (simp only: those_decodeMap [OF lt'] option.case)
    then have "unsextets (take i ?vs @ drop (Suc i) ?vs) = Some bs" using d by simp
    then have "length (take i ?vs @ drop (Suc i) ?vs) = (length bs * 8 + 5) div 6"
      by (rule length_unsextets)
    moreover have "length ?vs = (length bs * 8 + 5) div 6"
      using unsextets_sextets by (rule length_unsextets)
    ultimately show False using i n by simp
  next
    case True
    then have f: "filter ?nl (?x[i := c]) = ?x[i := c]"
      using xnl by (auto simp add: filter_id_conv dest: set_update_subset_insert [THEN subsetD])
    show False
    proof (cases "decodeMap c")
      case None
      have "c \<in> set (?x[i := c])" using i by (simp add: set_update_memI)
      then have "None \<in> set (map decodeMap (?x[i := c]))" using None by force
      then have "those (map decodeMap (?x[i := c])) = None" by (rule those_None)
      then show False using d by (simp add: DecodeString_def f)
    next
      case (Some v)
      then have v: "v < 64" "?enc v = c" using decodeMap_Some by blast+
      have y: "?x[i := c] = map ?enc (?vs[i := v])"
        by (simp add: x v map_update)
      have lt': "\<forall>a\<in>set (?vs[i := v]). a < 64"
        using lt v(1) by (auto dest: set_update_subset_insert [THEN subsetD])
      have "unsextets (?vs[i := v]) = Some bs"
        using d unfolding y by (simp add: DecodeString_alphabet [OF lt'])
      then have "sextets bs = canon (?vs[i := v])"
        using lt' by (intro sextets_unsextets)
      moreover have "sextets bs = canon ?vs"
        using lt unsextets_sextets by (intro sextets_unsextets)
      ultimately have "canon (?vs[i := v]) ! i = canon ?vs ! i" by simp
      moreover have "canon (?vs[i := v]) ! i = (?vs[i := v]) ! i"
        using i pos n by (intro canon_nth) simp_all
      moreover have "canon ?vs ! i = ?vs ! i"
        using i pos n by (intro canon_nth) simp_all
      ultimately have "v = ?vs ! i" using i n by simp
      then have "c = ?x ! i" using v(2) i n by (simp add: x)
      then show False using c by simp
    qed
  qed
qed

lemma flip_char_neq: "b < 8 \<Longrightarrow> flip_char b c \<noteq> c"
proof
  assume b: "b < 8" and "flip_char b c = c"
  then have "take_bit 8 (flip_bit b (of_char c :: nat)) = of_char c"
    by (simp add: flip_char_def char_of_eq_iff)
  then have "bit (take_bit 8 (flip_bit b (of_char c :: nat))) b = bit (of_char c :: nat) b"
    by simp
  then show False using b by (simp add: bit_take_bit_iff bit_flip_bit_iff)
qed

lemma length_digest_bytes: "length (digest_bytes H) = 32"
  by (induction H rule: digest_bytes.induct) (simp add: be32_bytes_def)

lemma length_hmac_sha256: "length (hmac_sha256 k m) = 32"
  by (simp add: hmac_sha256_def sha256_def length_digest_bytes Let_def)

lemma length_signature: "length (take 16 (sign s code payload)) = 16"
  by (simp add: sign_def length_hmac_sha256)

lemma length_encoded_signature: "length (EncodeToString (take 16 (sign s code p))) = 22"
  by (simp only: length_EncodeToString length_signature)

lemma SplitN2_join:
  assumes "CHR ''.'' \<notin> set p"
  shows "SplitN2 (p @ ''.'' @ q) = Some (p, q)"
proof -
  have nd: "\<And>c. c \<in> set p \<Longrightarrow> c \<noteq> CHR ''.''" using assms by blast
  have "takeWhile (\<lambda>c. c \<noteq> CHR ''.'') (p @ CHR ''.'' # q) = p"
    by (simp add: takeWhile_append2 [OF nd])
  moreover have "dropWhile (\<lambda>c. c \<noteq> CHR ''.'') (p @ CHR ''.'' # q) = CHR ''.'' # q"
    by (simp add: dropWhile_append2 [OF nd])
  ultimately show ?thesis by (simp add: SplitN2_def)
qed

lemma be32_be32_bytes: "be32 (be32_bytes w @ rest) = w"
proof -
  let ?r = "push_bit 8 (push_bit 8 (push_bit 8 (ucast (ucast (drop_bit 24 w) :: byte))
            OR ucast (ucast (drop_bit 16 w) :: byte)) OR ucast (ucast (drop_bit 8 w) :: byte))
            OR ucast (ucast w :: byte) :: 32 word"
  have "be32 (be32_bytes w @ rest) = ?r"
    by (simp add: be32_def be32_bytes_def)
  also have "?r = w"
  proof (rule bit_word_eqI)
    fix n :: nat
    assume "n < LENGTH(32)"
    then consider "n < 8" | "8 \<le> n" "n < 16" | "16 \<le> n" "n < 24" | "24 \<le> n" "n < 32"
      by fastforce
    then show "bit ?r n = bit w n"
      by cases (auto simp add: bit_simps)
  qed
  finally show ?thesis .
qed

lemma be16_cons: "be16 (ucast (drop_bit 8 w) # ucast w # rest) = w"
proof -
  let ?r = "push_bit 8 (ucast (ucast (drop_bit 8 w) :: byte)) OR ucast (ucast w :: byte) :: 16 word"
  have "be16 (ucast (drop_bit 8 w) # ucast w # rest) = ?r"
    by (simp add: be16_def)
  also have "?r = w"
  proof (rule bit_word_eqI)
    fix n :: nat
    assume "n < LENGTH(16)"
    then consider "n < 8" | "8 \<le> n" "n < 16"
      by fastforce
    then show "bit ?r n = bit w n"
      by cases (auto simp add: bit_simps)
  qed
  finally show ?thesis .
qed

lemma be32_cons:
  "be32 (ucast (drop_bit 24 w) # ucast (drop_bit 16 w) # ucast (drop_bit 8 w) # ucast w # rest) = w"
  using be32_be32_bytes [of w rest] by (simp add: be32_bytes_def)

lemma unat_of_char: "unat (of_char c :: byte) = of_char c"
proof -
  have "unat (of_nat (of_char c) :: byte) = of_char c"
    by (simp only: unat_of_nat) simp
  then show ?thesis by (simp only: of_nat_of_char)
qed

lemma string_of_bytes_of: "string_of (bytes_of s) = s"
  by (simp add: string_of_def bytes_of_def comp_def unat_of_char)

lemma Validate_parts:
  assumes "secret s \<noteq> []" and "CHR ''.'' \<notin> set part0"
  shows "ValidateAndExtractClickID s now code (part0 @ CHR ''.'' # part1) =
     (case DecodeString part0 of
        None \<Rightarrow> Inl ErrInvalidToken
      | Some payload \<Rightarrow>
          (case DecodeString part1 of
             None \<Rightarrow> Inl ErrInvalidToken
           | Some sigProvided \<Rightarrow>
               if sigProvided \<noteq> take 16 (sign s code payload) then Inl ErrInvalidToken
               else check_payload now payload))"
proof -
  have sp: "SplitN2 (part0 @ CHR ''.'' # part1) = Some (part0, part1)"
    using SplitN2_join [OF assms(2), of part1] by simp
  show ?thesis
  proof (cases "DecodeString part0")
    case None
    then show ?thesis using assms(1) by (simp add: ValidateAndExtractClickID_def sp)
  next
    case p: (Some payload)
    show ?thesis
    proof (cases "DecodeString part1")
      case None
      then show ?thesis using assms(1) p by (simp add: ValidateAndExtractClickID_def sp)
    next
      case (Some sigProvided)
      show ?thesis
      proof (cases "sigProvided = take 16 (sign s code payload)")
        case True
        have "length sigProvided = 16" unfolding True by (rule length_signature)
        then show ?thesis
          using assms(1) p Some True
          by (simp add: ValidateAndExtractClickID_def sp check_payload_def)
      next
        case False
        then show ?thesis
          using assms(1) p Some by (simp add: ValidateAndExtractClickID_def sp)
      qed
    qed
  qed
qed

lemma Validate_second_dot:
  assumes "secret s \<noteq> []" and "CHR ''.'' \<in> set p"
  shows "ValidateAndExtractClickID s now code (p @ CHR ''.'' # q) = Inl ErrInvalidToken"
proof -
  obtain p0 r where p: "p = p0 @ CHR ''.'' # r" and nd: "CHR ''.'' \<notin> set p0"
    using split_list_first [OF assms(2)] by blast
  have "p @ CHR ''.'' # q = p0 @ CHR ''.'' # (r @ CHR ''.'' # q)" by (simp add: p)
  moreover have "DecodeString (r @ CHR ''.'' # q) = None"
    by (rule DecodeString_dot) simp
  ultimately show ?thesis
    by (simp add: Validate_parts [OF assms(1) nd] split: option.splits)
qed

lemma Issue_token:
  assumes "secret s \<noteq> []" and "8 \<le> length rnd"
  shows "IssueWithClickID s now rnd code clickID =
     Inr (EncodeToString (issued_payload s now rnd clickID) @ CHR ''.'' #
          EncodeToString (take 16 (sign s code (issued_payload s now rnd clickID))))"
  using assms by (simp add: IssueWithClickID_def issued_payload_def Let_def)

lemma Issue_Inr:
  assumes "IssueWithClickID s now rnd code clickID = Inr tok"
  shows "secret s \<noteq> [] \<and> 8 \<le> length rnd"
  using assms by (auto simp add: IssueWithClickID_def split: if_splits)

lemma check_issued_payload:
  assumes "8 \<le> length rnd" and "length clickID < 65534"
    and "Unix now' \<le> uint (word_of_int (Unix (now + ttl s)) :: 32 word)"
  shows "check_payload now' (issued_payload s now rnd clickID) = Inr clickID"
proof (cases "clickID = []")
  case True
  then show ?thesis
    using assms by (simp add: check_payload_def issued_payload_def Let_def be32_bytes_def be32_cons)
next
  case False
  let ?n = "length clickID"
  let ?e = "word_of_int (Unix (now + ttl s)) :: 32 word"
  let ?p = "issued_payload s now rnd clickID"
  have p: "?p = ucast (drop_bit 8 (of_nat ?n :: 16 word)) # ucast (of_nat ?n :: 16 word)
                 # bytes_of clickID @ (be32_bytes ?e @ take 8 rnd)"
    using False by (simp add: issued_payload_def Let_def bytes_of_def)
  have len: "length ?p = 14 + ?n"
    using assms(1) by (simp add: p bytes_of_def be32_bytes_def)
  have b: "be16 ?p = of_nat ?n"
    unfolding p by (rule be16_cons)
  have n: "unat (of_nat ?n :: 16 word) = ?n"
    using assms(2) by (simp add: unat_of_nat)
  have "(2 :: 16 word) + of_nat ?n = of_nat (2 + ?n)" by simp
  then have hi: "unat (2 + of_nat ?n :: 16 word) = 2 + ?n"
    using assms(2) by (simp only: unat_of_nat) simp
  have "0 < ?n" using False by simp
  then have gt: "length ?p > 14" using len by simp
  have t: "take ?n (drop 2 ?p) = bytes_of clickID"
    by (simp add: p bytes_of_def)
  have d: "drop (2 + ?n) ?p = be32_bytes ?e @ take 8 rnd"
    by (simp add: p bytes_of_def)
  have "check_payload now' ?p =
          (if Unix now' > uint (be32 (drop (2 + ?n) ?p)) then Inl ErrInvalidToken
           else Inr (string_of (take ?n (drop 2 ?p))))"
    unfolding check_payload_def Let_def b n hi using gt len by simp
  then show ?thesis
    unfolding t d using assms(3) by (simp add: string_of_bytes_of be32_be32_bytes)
qed

text \<open>
  The lengths 65534 and 65535 of a click id: the token is issued, and its validation
  passes the MAC check and panics at the slice expression.
\<close>

lemma long_click_id_panics:
  assumes "8 \<le> length rnd" and "length clickID = 65534 \<or> length clickID = 65535"
  shows "check_payload now' (issued_payload s now rnd clickID) = Inl PanicSliceBounds"
proof -
  let ?n = "length clickID"
  let ?e = "word_of_int (Unix (now + ttl s)) :: 32 word"
  let ?p = "issued_payload s now rnd clickID"
  have ne: "clickID \<noteq> []" using assms(2) by auto
  have p: "?p = ucast (drop_bit 8 (of_nat ?n :: 16 word)) # ucast (of_nat ?n :: 16 word)
                 # bytes_of clickID @ (be32_bytes ?e @ take 8 rnd)"
    using ne by (simp add: issued_payload_def Let_def bytes_of_def)
  have len: "length ?p = 14 + ?n"
    using assms(1) by (simp add: p bytes_of_def be32_bytes_def)
  have b: "be16 ?p = of_nat ?n"
    unfolding p by (rule be16_cons)
  have n: "unat (of_nat ?n :: 16 word) = ?n"
    using assms(2) by (auto simp add: unat_of_nat)
  have "(2 :: 16 word) + of_nat ?n = of_nat (2 + ?n)" by simp
  then have hi: "unat (2 + of_nat ?n :: 16 word) < 2"
    using assms(2) by (auto simp only: unat_of_nat) simp_all
  show ?thesis
    unfolding check_payload_def Let_def b n using hi len assms(2) by auto
qed

lemma issue_then_validate_panics:
  assumes "IssueWithClickID s now rnd code clickID = Inr tok"
    and "length clickID = 65534 \<or> length clickID = 65535"
  shows "ValidateAndExtractClickID s now' code tok = Inl PanicSliceBounds"
proof -
  let ?p = "issued_payload s now rnd clickID"
  note i = Issue_Inr [OF assms(1)]
  then have sec: "secret s \<noteq> []" and r: "8 \<le> length rnd" by simp_all
  have tok: "tok = EncodeToString ?p @ CHR ''.'' # EncodeToString (take 16 (sign s code ?p))"
    using assms(1) Issue_token [OF sec r, of now code clickID] by simp
  show ?thesis
    unfolding tok
    by (simp add: Validate_parts [OF sec no_dot_in_encoding] DecodeString_EncodeToString
          long_click_id_panics [OF r assms(2)])
qed

lemma fresh_token_not_expired:
  assumes "0 \<le> ttl s" and "0 \<le> Unix now" and "Unix (now + ttl s) < 2 ^ 32"
  shows "Unix now \<le> uint (word_of_int (Unix (now + ttl s)) :: 32 word)"
proof -
  have m: "Unix now \<le> Unix (now + ttl s)"
    unfolding Unix_def using assms(1) by (intro zdiv_mono1) simp_all
  then have "0 \<le> Unix (now + ttl s)" using assms(2) by simp
  then have "uint (word_of_int (Unix (now + ttl s)) :: 32 word) = Unix (now + ttl s)"
    using assms(3) by (simp add: uint_word_of_int)
  then show ?thesis using m by simp
qed

lemma segments_join:
  assumes "CHR ''.'' \<notin> set p"
  shows "payload_segment (p @ CHR ''.'' # q) = p" "signature_segment (p @ CHR ''.'' # q) = q"
  using SplitN2_join [OF assms, of q]
  by (simp_all add: SplitN2_def payload_segment_def signature_segment_def split: if_splits)

lemma issued_segments:
  assumes "IssueWithClickID s now rnd code clickID = Inr tok"
  shows "secret s \<noteq> []"
    and "payload_segment tok = EncodeToString (issued_payload s now rnd clickID)"
    and "signature_segment tok =
           EncodeToString (take 16 (sign s code (issued_payload s now rnd clickID)))"
proof -
  note i = Issue_Inr [OF assms]
  then show "secret s \<noteq> []" by simp
  have tok: "tok = EncodeToString (issued_payload s now rnd clickID) @ CHR ''.'' #
         EncodeToString (take 16 (sign s code (issued_payload s now rnd clickID)))"
    using assms Issue_token [of s rnd now code clickID] i by simp
  show "payload_segment tok = EncodeToString (issued_payload s now rnd clickID)"
    unfolding tok by (rule segments_join(1) [OF no_dot_in_encoding])
  show "signature_segment tok =
           EncodeToString (take 16 (sign s code (issued_payload s now rnd clickID)))"
    unfolding tok by (rule segments_join(2) [OF no_dot_in_encoding])
qed

lemma signature_char_tamper:
  assumes "secret s \<noteq> []" and "Suc i < 22" and "c \<noteq> EncodeToString (take 16 (sign s code p)) ! i"
  shows "ValidateAndExtractClickID s now code
           (EncodeToString p @ CHR ''.'' # (EncodeToString (take 16 (sign s code p)))[i := c])
         = Inl ErrInvalidToken"
proof -
  let ?sg = "take 16 (sign s code p)"
  have "DecodeString ((EncodeToString ?sg)[i := c]) \<noteq> Some ?sg"
    using assms(2,3) by (intro tamper_char) (simp_all add: length_encoded_signature)
  then show ?thesis
    by (simp add: Validate_parts [OF assms(1) no_dot_in_encoding] DecodeString_EncodeToString
          split: option.splits)
qed

lemma signature_tamper:
  assumes "secret s \<noteq> []"
    and "ValidateAndExtractClickID s now code (EncodeToString p @ CHR ''.'' # sg) = Inr cid"
  shows "DecodeString sg = Some (take 16 (sign s code p))"
  using assms(2)
  by (simp add: Validate_parts [OF assms(1) no_dot_in_encoding] DecodeString_EncodeToString
        split: option.splits if_splits)

lemma payload_char_tamper:
  assumes "secret s \<noteq> []" and "i < length (EncodeToString p)"
    and "Suc i < length (EncodeToString p) \<or> length (EncodeToString p) mod 4 = 0"
    and "c \<noteq> EncodeToString p ! i"
    and "ValidateAndExtractClickID s now code
           ((EncodeToString p)[i := c] @ CHR ''.'' # EncodeToString (take 16 (sign s code p)))
         = Inr cid"
  shows "\<exists>p'. DecodeString ((EncodeToString p)[i := c]) = Some p' \<and> p' \<noteq> p
              \<and> take 16 (sign s code p') = take 16 (sign s code p)"
proof -
  let ?P' = "(EncodeToString p)[i := c]"
  have nd: "CHR ''.'' \<notin> set ?P'"
    using assms(5) Validate_second_dot [OF assms(1), of ?P'] by auto
  from assms(5) obtain p' where d: "DecodeString ?P' = Some p'"
    and m: "take 16 (sign s code p) = take 16 (sign s code p')"
    by (auto simp add: Validate_parts [OF assms(1) nd] DecodeString_EncodeToString
          split: option.splits if_splits)
  have "DecodeString ?P' \<noteq> Some p"
    using assms(2,4,3) by (rule tamper_char)
  then have "p' \<noteq> p" using d by auto
  then show ?thesis using d m by simp
qed

lemma example_issued_payload:
  "issued_payload example_signer 1700000000000000000 (replicate 8 0) ''abc'' = example_payload"
  by code_simp

lemma example_mac:
  "sign example_signer ''abc'' example_payload =
     [137, 127, 240, 114, 25, 120, 134, 212, 172, 125, 245, 29, 185, 37, 244, 249,
      177, 227, 149, 222, 182, 11, 219, 47, 203, 179, 230, 8, 103, 115, 100, 194]"
  by code_simp

lemma example_encodings:
  "EncodeToString example_payload = ''AANhYmNlU_E8AAAAAAAAAAA''"
  "EncodeToString [137, 127, 240, 114, 25, 120, 134, 212, 172, 125, 245, 29, 185, 37, 244, 249]
     = ''iX_wchl4htSsffUduSX0-Q''"
  by (simp_all add: EncodeToString_def example_payload_def encodeURL_def Let_def)

lemma example_issue:
  "IssueWithClickID example_signer 1700000000000000000 (replicate 8 0) ''abc'' ''abc''
     = Inr example_token"
proof -
  have "secret example_signer \<noteq> []" by (simp add: example_signer_def bytes_of_def)
  then show ?thesis
    by (simp add: Issue_token example_issued_payload example_mac example_encodings
          example_token_def)
qed

lemma example_flips:
  "flip_at 22 1 example_token = ''AANhYmNlU_E8AAAAAAAAAAC.iX_wchl4htSsffUduSX0-Q''"
  "flip_at 45 1 example_token = ''AANhYmNlU_E8AAAAAAAAAAA.iX_wchl4htSsffUduSX0-S''"
  by code_simp+

lemma example_decodings:
  "DecodeString ''AANhYmNlU_E8AAAAAAAAAAC'' = Some example_payload"
  "DecodeString ''iX_wchl4htSsffUduSX0-S'' =
     Some [137, 127, 240, 114, 25, 120, 134, 212, 172, 125, 245, 29, 185, 37, 244, 249]"
proof -
  have p: "''AANhYmNlU_E8AAAAAAAAAAC'' = map (\<lambda>v. encodeURL ! v) [0, 0, 13, 33, 24, 38, 13, 37, 20, 63, 4, 60, 0, 0, 0, 0, 0, 0, 0, 0, 0, 0, 2]"
    by (simp add: encodeURL_def)
  have "\<forall>v\<in>set [0, 0, 13, 33, 24, 38, 13, 37, 20, 63, 4, 60, 0, 0, 0, 0, 0, 0, 0, 0, 0, 0, 2]. v < (64::nat)"
    by simp
  then have "DecodeString (map (\<lambda>v. encodeURL ! v) [0, 0, 13, 33, 24, 38, 13, 37, 20, 63, 4, 60, 0, 0, 0, 0, 0, 0, 0, 0, 0, 0, 2]) = unsextets [0, 0, 13, 33, 24, 38, 13, 37, 20, 63, 4, 60, 0, 0, 0, 0, 0, 0, 0, 0, 0, 0, 2]"
    by (rule DecodeString_alphabet)
  then show "DecodeString ''AANhYmNlU_E8AAAAAAAAAAC'' = Some example_payload"
    unfolding p [symmetric] by (simp add: Let_def example_payload_def)
  have s: "''iX_wchl4htSsffUduSX0-S'' = map (\<lambda>v. encodeURL ! v) [34, 23, 63, 48, 28, 33, 37, 56, 33, 45, 18, 44, 31, 31, 20, 29, 46, 18, 23, 52, 62, 18]"
    by (simp add: encodeURL_def)
  have "\<forall>v\<in>set [34, 23, 63, 48, 28, 33, 37, 56, 33, 45, 18, 44, 31, 31, 20, 29, 46, 18, 23, 52, 62, 18]. v < (64::nat)"
    by simp
  then have "DecodeString (map (\<lambda>v. encodeURL ! v) [34, 23, 63, 48, 28, 33, 37, 56, 33, 45, 18, 44, 31, 31, 20, 29, 46, 18, 23, 52, 62, 18]) = unsextets [34, 23, 63, 48, 28, 33, 37, 56, 33, 45, 18, 44, 31, 31, 20, 29, 46, 18, 23, 52, 62, 18]"
    by (rule DecodeString_alphabet)
  then show "DecodeString ''iX_wchl4htSsffUduSX0-S'' =
     Some [137, 127, 240, 114, 25, 120, 134, 212, 172, 125, 245, 29, 185, 37, 244, 249]"
    unfolding s [symmetric] by (simp add: Let_def)
qed

lemma example_check: "check_payload 1700000030000000000 example_payload = Inr ''abc''"
  by code_simp

text \<open>
  C4. For every code, with a non-empty secret: a token issued for the code with the
  click id \<open>abc\<close> validates for that code, and the result is \<open>abc\<close>, at every time
  whose second is not past the expiry embedded in the token; in particular at the very
  time of issuance, when the time to live is not negative and the expiry fits the 32
  bits it is stored in (a clock between 1970 and 2106).
\<close>

theorem token_round_trip:
  assumes "secret s \<noteq> []"
    and "IssueWithClickID s now rnd code ''abc'' = Inr tok"
  shows "(Unix now' \<le> uint (word_of_int (Unix (now + ttl s)) :: 32 word) \<longrightarrow>
            ValidateAndExtractClickID s now' code tok = Inr ''abc'')
       \<and> (0 \<le> ttl s \<and> 0 \<le> Unix now \<and> Unix (now + ttl s) < 2 ^ 32 \<longrightarrow>
            ValidateAndExtractClickID s now code tok = Inr ''abc'')"
proof -
  have r: "8 \<le> length rnd" using Issue_Inr [OF assms(2)] by simp
  let ?p = "issued_payload s now rnd ''abc''"
  have tok: "tok = EncodeToString ?p @ CHR ''.'' # EncodeToString (take 16 (sign s code ?p))"
    using assms(2) Issue_token [OF assms(1) r, of now code "''abc''"] by simp
  have v: "ValidateAndExtractClickID s t code tok = Inr ''abc''"
    if "Unix t \<le> uint (word_of_int (Unix (now + ttl s)) :: 32 word)" for t
  proof -
    have "check_payload t ?p = Inr ''abc''"
      using that by (intro check_issued_payload [OF r]) simp_all
    then show ?thesis
      unfolding tok
      by (simp add: Validate_parts [OF assms(1) no_dot_in_encoding] DecodeString_EncodeToString)
  qed
  show ?thesis using v fresh_token_not_expired [of s now] by blast
qed

text \<open>
  C4 at a concrete input: the token of the example validates at the time of issuance and
  in the last nanosecond of the second of its expiry.
\<close>

theorem token_round_trip_witness:
  "secret example_signer \<noteq> []
   \<and> IssueWithClickID example_signer 1700000000000000000 (replicate 8 0) ''abc'' ''abc''
       = Inr ''AANhYmNlU_E8AAAAAAAAAAA.iX_wchl4htSsffUduSX0-Q''
   \<and> ValidateAndExtractClickID example_signer 1700000000000000000 ''abc''
        ''AANhYmNlU_E8AAAAAAAAAAA.iX_wchl4htSsffUduSX0-Q'' = Inr ''abc''
   \<and> ValidateAndExtractClickID example_signer 1700000060999999999 ''abc''
        ''AANhYmNlU_E8AAAAAAAAAAA.iX_wchl4htSsffUduSX0-Q'' = Inr ''abc''"
proof -
  have h1: "secret example_signer \<noteq> []" by (simp add: example_signer_def bytes_of_def)
  have h2: "IssueWithClickID example_signer 1700000000000000000 (replicate 8 0) ''abc'' ''abc''
       = Inr ''AANhYmNlU_E8AAAAAAAAAAA.iX_wchl4htSsffUduSX0-Q''"
    using example_issue by (simp add: example_token_def)
  have h3: "Unix 1700000060999999999 \<le>
      uint (word_of_int (Unix (1700000000000000000 + ttl example_signer)) :: 32 word)"
    by (simp add: Unix_def example_signer_def uint_word_of_int)
  have h4: "0 \<le> ttl example_signer \<and> 0 \<le> Unix 1700000000000000000
            \<and> Unix (1700000000000000000 + ttl example_signer) < 2 ^ 32"
    by (simp add: Unix_def example_signer_def)
  show ?thesis
    using h1 h2 h3 h4 token_round_trip [OF h1 h2, of 1700000060999999999] by blast
qed

text \<open>
  C3, as the claim states it, fails. In the token of the example, flipping bit 1 of the
  last character of the signature segment (\<open>Q\<close> becomes \<open>S\<close>) or of the last
  character of the payload segment (\<open>A\<close> becomes \<open>C\<close>) changes only bits that
  \<open>DecodeString\<close> does not look at (the encoding is not strict): the decoded bytes are
  the same and the modified token validates, with the click id \<open>abc\<close>.
\<close>

theorem accepted_bit_flips:
  "IssueWithClickID example_signer 1700000000000000000 (replicate 8 0) ''abc'' ''abc''
     = Inr ''AANhYmNlU_E8AAAAAAAAAAA.iX_wchl4htSsffUduSX0-Q''
   \<and> flip_at 45 1 ''AANhYmNlU_E8AAAAAAAAAAA.iX_wchl4htSsffUduSX0-Q''
       = ''AANhYmNlU_E8AAAAAAAAAAA.iX_wchl4htSsffUduSX0-S''
   \<and> ValidateAndExtractClickID example_signer 1700000030000000000 ''abc''
        ''AANhYmNlU_E8AAAAAAAAAAA.iX_wchl4htSsffUduSX0-S'' = Inr ''abc''
   \<and> flip_at 22 1 ''AANhYmNlU_E8AAAAAAAAAAA.iX_wchl4htSsffUduSX0-Q''
       = ''AANhYmNlU_E8AAAAAAAAAAC.iX_wchl4htSsffUduSX0-Q''
   \<and> ValidateAndExtractClickID example_signer 1700000030000000000 ''abc''
        ''AANhYmNlU_E8AAAAAAAAAAC.iX_wchl4htSsffUduSX0-Q'' = Inr ''abc''"
proof -
  let ?sg = "[137, 127, 240, 114, 25, 120, 134, 212, 172, 125, 245, 29, 185, 37, 244, 249] :: byte list"
  have sec: "secret example_signer \<noteq> []" by (simp add: example_signer_def bytes_of_def)
  have mac: "take 16 (sign example_signer ''abc'' example_payload) = ?sg"
    by (simp add: example_mac)
  have d0: "DecodeString ''AANhYmNlU_E8AAAAAAAAAAA'' = Some example_payload"
    using DecodeString_EncodeToString [of example_payload] by (simp add: example_encodings)
  have d1: "DecodeString ''iX_wchl4htSsffUduSX0-Q'' = Some ?sg"
    using DecodeString_EncodeToString [of ?sg] by (simp add: example_encodings)
  have v: "ValidateAndExtractClickID example_signer 1700000030000000000 ''abc''
             (p @ CHR ''.'' # q) = Inr ''abc''"
    if "CHR ''.'' \<notin> set p" "DecodeString p = Some example_payload" "DecodeString q = Some ?sg"
    for p q
    by (simp add: Validate_parts [OF sec that(1)] that(2,3) mac example_check)
  have a: "ValidateAndExtractClickID example_signer 1700000030000000000 ''abc''
        (''AANhYmNlU_E8AAAAAAAAAAA'' @ CHR ''.'' # ''iX_wchl4htSsffUduSX0-S'') = Inr ''abc''"
    by (rule v [OF _ d0 example_decodings(2)]) simp
  have b: "ValidateAndExtractClickID example_signer 1700000030000000000 ''abc''
        (''AANhYmNlU_E8AAAAAAAAAAC'' @ CHR ''.'' # ''iX_wchl4htSsffUduSX0-Q'') = Inr ''abc''"
    by (rule v [OF _ example_decodings(1) d1]) simp
  show ?thesis
    using a b example_issue example_flips by (simp add: example_token_def)
qed

text \<open>
  C3, amended. For every token issued for a code, with or without a click id, and a
  validation at any time:
  the token is its payload segment, a dot and its signature segment of 22 characters;
  flipping any single bit of any of the first 21 characters of the signature segment
  makes validation fail;
  whatever replaces the signature segment, validation fails unless the replacement
  decodes to the same 16 bytes;
  flipping a single bit of a character of the payload segment (any character when the
  segment has no incomplete group, any but the last otherwise) makes validation fail
  unless the changed segment decodes to a different payload whose truncated MAC is the
  same as the original's, that is unless HMAC-SHA256 collides.
  Nothing is promised for a flip in the last character of a segment that ends in an
  incomplete group: it can leave the decoded bytes as they were.
\<close>

theorem tamper_evidence:
  assumes "IssueWithClickID s now rnd code clickID = Inr tok"
  shows "tok = payload_segment tok @ ''.'' @ signature_segment tok
       \<and> length (signature_segment tok) = 22
       \<and> (\<forall>i b. i < 21 \<and> b < 8 \<longrightarrow>
            ValidateAndExtractClickID s now' code
              (payload_segment tok @ ''.'' @ flip_at i b (signature_segment tok))
            = Inl ErrInvalidToken)
       \<and> (\<forall>sg cid.
            ValidateAndExtractClickID s now' code (payload_segment tok @ ''.'' @ sg) = Inr cid \<longrightarrow>
            DecodeString sg = DecodeString (signature_segment tok))
       \<and> (\<forall>i b cid.
            i < length (payload_segment tok) \<and> b < 8
            \<and> (Suc i < length (payload_segment tok) \<or> length (payload_segment tok) mod 4 = 0)
            \<and> ValidateAndExtractClickID s now' code
                 (flip_at i b (payload_segment tok) @ ''.'' @ signature_segment tok) = Inr cid \<longrightarrow>
            (\<exists>p p'. DecodeString (payload_segment tok) = Some p
                   \<and> DecodeString (flip_at i b (payload_segment tok)) = Some p' \<and> p' \<noteq> p
                   \<and> take 16 (sign s code p') = take 16 (sign s code p)))"
proof -
  let ?p = "issued_payload s now rnd clickID"
  let ?P = "EncodeToString ?p"
  let ?S = "EncodeToString (take 16 (sign s code ?p))"
  note seg = issued_segments [OF assms]
  note i = Issue_Inr [OF assms]
  have tok: "tok = ?P @ CHR ''.'' # ?S"
    using assms Issue_token [of s rnd now code clickID] i by simp
  have c1: "tok = payload_segment tok @ ''.'' @ signature_segment tok"
    unfolding seg(2,3) using tok by simp
  have c2: "length (signature_segment tok) = 22"
    unfolding seg(3) by (rule length_encoded_signature)
  have c3: "ValidateAndExtractClickID s now' code
              (payload_segment tok @ ''.'' @ flip_at i b (signature_segment tok))
            = Inl ErrInvalidToken" if "i < 21" "b < 8" for i b
  proof -
    have "flip_char b (?S ! i) \<noteq> ?S ! i" using that(2) by (rule flip_char_neq)
    then show ?thesis
      unfolding seg(2,3) flip_at_def
      using signature_char_tamper [OF seg(1), of i "flip_char b (?S ! i)" code ?p now'] that(1)
      by simp
  qed
  have c4: "DecodeString sg = DecodeString (signature_segment tok)"
    if "ValidateAndExtractClickID s now' code (payload_segment tok @ ''.'' @ sg) = Inr cid" for sg cid
    using that signature_tamper [OF seg(1), of now' code ?p sg cid]
    unfolding seg(2,3) by (simp add: DecodeString_EncodeToString)
  have c5: "\<exists>p p'. DecodeString (payload_segment tok) = Some p
                   \<and> DecodeString (flip_at i b (payload_segment tok)) = Some p' \<and> p' \<noteq> p
                   \<and> take 16 (sign s code p') = take 16 (sign s code p)"
    if "i < length (payload_segment tok)" "b < 8"
      "Suc i < length (payload_segment tok) \<or> length (payload_segment tok) mod 4 = 0"
      "ValidateAndExtractClickID s now' code
                 (flip_at i b (payload_segment tok) @ ''.'' @ signature_segment tok) = Inr cid"
    for i b cid
  proof -
    have "flip_char b (?P ! i) \<noteq> ?P ! i" using that(2) by (rule flip_char_neq)
    then have "\<exists>p'. DecodeString (?P[i := flip_char b (?P ! i)]) = Some p' \<and> p' \<noteq> ?p
              \<and> take 16 (sign s code p') = take 16 (sign s code ?p)"
      using that(1,3,4) unfolding seg(2,3) flip_at_def
      by (intro payload_char_tamper [OF seg(1), where now = now' and cid = cid]) simp_all
    then show ?thesis
      unfolding seg(2,3) flip_at_def by (simp add: DecodeString_EncodeToString)
  qed
  show ?thesis
  proof (intro conjI allI impI)
    show "tok = payload_segment tok @ ''.'' @ signature_segment tok" by (rule c1)
    show "length (signature_segment tok) = 22" by (rule c2)
  next
    fix i b :: nat
    assume "i < 21 \<and> b < 8"
    then show "ValidateAndExtractClickID s now' code
              (payload_segment tok @ ''.'' @ flip_at i b (signature_segment tok))
            = Inl ErrInvalidToken"
      using c3 by blast
  next
    fix sg cid
    assume "ValidateAndExtractClickID s now' code (payload_segment tok @ ''.'' @ sg) = Inr cid"
    then show "DecodeString sg = DecodeString (signature_segment tok)" by (rule c4)
  next
    fix i b :: nat and cid
    assume "i < length (payload_segment tok) \<and> b < 8
            \<and> (Suc i < length (payload_segment tok) \<or> length (payload_segment tok) mod 4 = 0)
            \<and> ValidateAndExtractClickID s now' code
                 (flip_at i b (payload_segment tok) @ ''.'' @ signature_segment tok) = Inr cid"
    then have a: "i < length (payload_segment tok)" "b < 8"
      "Suc i < length (payload_segment tok) \<or> length (payload_segment tok) mod 4 = 0"
      "ValidateAndExtractClickID s now' code
                 (flip_at i b (payload_segment tok) @ ''.'' @ signature_segment tok) = Inr cid"
      by simp_all
    show "\<exists>p p'. DecodeString (payload_segment tok) = Some p
                   \<and> DecodeString (flip_at i b (payload_segment tok)) = Some p' \<and> p' \<noteq> p
                   \<and> take 16 (sign s code p') = take 16 (sign s code p)"
      by (rule c5 [OF a])
  qed
qed

text \<open>
  C3 (amended) at a concrete input: bit 5 of the fourth character of the signature
  segment of the example's token.
\<close>

theorem tamper_evidence_witness:
  "IssueWithClickID example_signer 1700000000000000000 (replicate 8 0) ''abc'' ''abc''
     = Inr example_token
   \<and> length (signature_segment example_token) = 22
   \<and> ValidateAndExtractClickID example_signer 1700000030000000000 ''abc''
        (payload_segment example_token @ ''.'' @ flip_at 3 5 (signature_segment example_token))
       = Inl ErrInvalidToken"
proof -
  note t = tamper_evidence [OF example_issue, of 1700000030000000000]
  have "(3::nat) < 21 \<and> (5::nat) < 8" by simp
  then show ?thesis using t example_issue by blast
qed

end
